theory Spec2Isabelle
  imports Complex_Main "HOL-Library.Monad_Syntax" "HOL-Library.Sublist"
begin

section \<open>Dates of the planning year\<close>

text \<open>
  The planner works on the fixed year 2025 (\<open>self.year = 2025\<close>).  A \<open>datetime\<close> at midnight
  is modelled by the number of days between it and 1 January 2025, so that adding
  \<open>timedelta(days=k)\<close> is adding \<open>k\<close> and comparing datetimes is comparing integers.
  \<open>start_date = datetime(2025, 1, 1)\<close> is day 0 and \<open>end_date = datetime(2025, 12, 31)\<close> is
  day 364.
\<close>

type_synonym date = int

definition start_date :: date where
  "start_date = 0"

definition end_date :: date where
  "end_date = 364"

definition month_lengths :: "int list" where
  "month_lengths = [31, 28, 31, 30, 31, 30, 31, 31, 30, 31, 30, 31]"

text \<open>Month and day of the month, walking the month lengths of a year without leap day.\<close>

fun month_day_from :: "int list \<Rightarrow> int \<Rightarrow> int \<Rightarrow> int \<times> int" where
  "month_day_from [] m n = (m, n + 1)"
| "month_day_from (l # ls) m n =
     (if n < l then (m, n + 1) else month_day_from ls (m + 1) (n - l))"

text \<open>
  \<open>datetime.month\<close> and \<open>datetime.day\<close>.  The program reads them for dates from 1 January 2025
  to 1 January 2026 only; neither 2025 nor 2026 is a leap year, so the position inside the
  year is the offset modulo 365.
\<close>

definition month_day :: "date \<Rightarrow> int \<times> int" where
  "month_day d = month_day_from month_lengths 1 (d mod 365)"

definition month :: "date \<Rightarrow> int" where
  "month d = fst (month_day d)"

definition day :: "date \<Rightarrow> int" where
  "day d = snd (month_day d)"

text \<open>\<open>datetime.weekday()\<close>: Monday is 0 and Sunday is 6; 1 January 2025 is a Wednesday.\<close>

definition weekday :: "date \<Rightarrow> int" where
  "weekday d = (d + 2) mod 7"

definition is_weekend :: "date \<Rightarrow> bool" where
  "is_weekend d = (weekday d \<ge> 5)"

text \<open>The date of a month and day in 2025: \<open>date.replace(year=2025)\<close>.\<close>

definition date_of_month_day :: "int \<Rightarrow> int \<Rightarrow> date" where
  "date_of_month_day m d = sum_list (take (nat (m - 1)) month_lengths) + d - 1"

section \<open>Strings\<close>

text \<open>
  A character is a code point below 256 (Latin-1).  \<open>str.lower()\<close> changes the letters
  \<open>A\<close> to \<open>Z\<close> and the accented capital letters \<open>0xC0\<close> to \<open>0xDE\<close> (\<open>0xD7\<close>, the
  multiplication sign, apart) and nothing else there; a string with a code point above 255 is
  outside this model.
\<close>

definition upper_letters :: string where
  "upper_letters = ''ABCDEFGHIJKLMNOPQRSTUVWXYZ'' @
     [CHR 0xC0, CHR 0xC1, CHR 0xC2, CHR 0xC3, CHR 0xC4, CHR 0xC5, CHR 0xC6, CHR 0xC7,
     CHR 0xC8, CHR 0xC9, CHR 0xCA, CHR 0xCB, CHR 0xCC, CHR 0xCD, CHR 0xCE, CHR 0xCF,
     CHR 0xD0, CHR 0xD1, CHR 0xD2, CHR 0xD3, CHR 0xD4, CHR 0xD5, CHR 0xD6, CHR 0xD8,
     CHR 0xD9, CHR 0xDA, CHR 0xDB, CHR 0xDC, CHR 0xDD, CHR 0xDE]"

definition lower_letters :: string where
  "lower_letters = ''abcdefghijklmnopqrstuvwxyz'' @
     [CHR 0xE0, CHR 0xE1, CHR 0xE2, CHR 0xE3, CHR 0xE4, CHR 0xE5, CHR 0xE6, CHR 0xE7,
     CHR 0xE8, CHR 0xE9, CHR 0xEA, CHR 0xEB, CHR 0xEC, CHR 0xED, CHR 0xEE, CHR 0xEF,
     CHR 0xF0, CHR 0xF1, CHR 0xF2, CHR 0xF3, CHR 0xF4, CHR 0xF5, CHR 0xF6, CHR 0xF8,
     CHR 0xF9, CHR 0xFA, CHR 0xFB, CHR 0xFC, CHR 0xFD, CHR 0xFE]"

definition lower_char :: "char \<Rightarrow> char" where
  "lower_char c = (case map_of (zip upper_letters lower_letters) c of Some l \<Rightarrow> l | None \<Rightarrow> c)"

definition lower :: "string \<Rightarrow> string" where
  "lower s = map lower_char s"

text \<open>\<open>a in b\<close> on strings: \<open>a\<close> occurs in \<open>b\<close> as a contiguous block.\<close>

fun substr_in :: "string \<Rightarrow> string \<Rightarrow> bool" where
  "substr_in a [] = (a = [])"
| "substr_in a (b # bs) = (prefix a (b # bs) \<or> substr_in a bs)"

definition digit :: "char \<Rightarrow> int option" where
  "digit c = map_of (zip ''0123456789'' [0, 1, 2, 3, 4, 5, 6, 7, 8, 9]) c"

definition digit_char :: "nat \<Rightarrow> char" where
  "digit_char n = ''0123456789'' ! n"

fun str_of_nat :: "nat \<Rightarrow> string" where
  "str_of_nat n = (if n < 10 then [digit_char n] else str_of_nat (n div 10) @ [digit_char (n mod 10)])"

definition str_of_int :: "int \<Rightarrow> string" where
  "str_of_int i = (if i < 0 then CHR ''-'' # str_of_nat (nat (- i)) else str_of_nat (nat i))"

section \<open>Holiday sheet\<close>

text \<open>
  A row of the holiday sheet: the \<open>Date\<close> text (day and month, no year), the description and
  one cell for each city column.
\<close>

record holiday_row =
  Date :: string
  Holiday_Description :: string
  city_cell :: "string \<Rightarrow> string"

definition month_names :: "string list" where
  "month_names = [''jan'', ''feb'', ''mar'', ''apr'', ''may'', ''jun'',
                  ''jul'', ''aug'', ''sep'', ''oct'', ''nov'', ''dec'']"

text \<open>The day field of the format \<open>%d\<close>: one or two digits, or a space and a digit.\<close>

fun parse_day :: "string \<Rightarrow> int option" where
  "parse_day [c] = (case digit c of Some n \<Rightarrow> if 1 \<le> n then Some n else None | None \<Rightarrow> None)"
| "parse_day [a, b] =
     (if a = CHR '' '' then
        (case digit b of Some n \<Rightarrow> if 1 \<le> n then Some n else None | None \<Rightarrow> None)
      else
        (case digit a of
           None \<Rightarrow> None
         | Some m \<Rightarrow>
             (case digit b of
                None \<Rightarrow> None
              | Some n \<Rightarrow> if 1 \<le> 10 * m + n \<and> 10 * m + n \<le> 31 then Some (10 * m + n) else None)))"
| "parse_day _ = None"

fun index_of :: "'a list \<Rightarrow> 'a \<Rightarrow> int \<Rightarrow> int option" where
  "index_of [] x i = None"
| "index_of (y # ys) x i = (if x = y then Some i else index_of ys x (i + 1))"

text \<open>The month field of the format \<open>%b\<close>: an abbreviated month name, in any letter case.\<close>

definition parse_month :: "string \<Rightarrow> int option" where
  "parse_month s = index_of month_names (lower s) 1"

text \<open>
  \<open>pd.to_datetime(date_str, format='%d-%b')\<close>: the day and the month of the text.  The parse
  builds a date of the year 1900, whose months have the lengths of 2025; it fails on text of
  another shape and on a day the month does not have (\<open>None\<close> is the exception that the
  caller catches).
\<close>

definition strptime_d_b :: "string \<Rightarrow> (int \<times> int) option" where
  "strptime_d_b date_str =
     (case parse_day (takeWhile (\<lambda>c. c \<noteq> CHR ''-'') date_str) of
        None \<Rightarrow> None
      | Some d \<Rightarrow>
          (case dropWhile (\<lambda>c. c \<noteq> CHR ''-'') date_str of
             [] \<Rightarrow> None
           | _ # rest \<Rightarrow>
               (case parse_month rest of
                  None \<Rightarrow> None
                | Some m \<Rightarrow>
                    if d \<le> month_lengths ! nat (m - 1) then Some (d, m) else None)))"

text \<open>The parsed date with \<open>replace(year=2025)\<close>.\<close>

definition to_datetime :: "string \<Rightarrow> date option" where
  "to_datetime date_str =
     (case strptime_d_b date_str of
        None \<Rightarrow> None
      | Some (d, m) \<Rightarrow> Some (date_of_month_day m d))"

text \<open>
  \<open>_get_holidays_for_city\<close>: the rows whose cell for the city is \<open>'Holiday'\<close>, as pairs of date
  and description, in the order of the sheet; a row whose date does not parse is skipped.
\<close>

definition get_holidays_for_city :: "holiday_row list \<Rightarrow> string \<Rightarrow> (date \<times> string) list" where
  "get_holidays_for_city holidays_df city =
     List.map_filter
       (\<lambda>row. case to_datetime (Date row) of
                 None \<Rightarrow> None
               | Some d \<Rightarrow> Some (d, Holiday_Description row))
       (filter (\<lambda>row. city_cell row city = ''Holiday'') holidays_df)"

section \<open>Calendar of the year\<close>

datatype day_type = Holiday | Weekend | Workday

record day_info =
  dtype :: day_type
  description :: string

text \<open>
  The first loop of \<open>_find_optimal_leave_periods\<close>: every date from \<open>start_date\<close> to
  \<open>end_date\<close> gets an entry of the dictionary \<open>calendar_days\<close>.
\<close>

definition classify :: "date list \<Rightarrow> (date \<rightharpoonup> string) \<Rightarrow> date \<Rightarrow> day_info" where
  "classify holiday_dates holiday_desc current_date =
     (if current_date \<in> set holiday_dates then
        \<lparr>dtype = Holiday,
         description = (case holiday_desc current_date of Some s \<Rightarrow> s | None \<Rightarrow> ''Holiday'')\<rparr>
      else if is_weekend current_date then \<lparr>dtype = Weekend, description = ''Weekend''\<rparr>
      else \<lparr>dtype = Workday, description = ''Workday''\<rparr>)"

function calendar_loop ::
  "date list \<Rightarrow> (date \<rightharpoonup> string) \<Rightarrow> date \<Rightarrow> (date \<rightharpoonup> day_info) \<Rightarrow> (date \<rightharpoonup> day_info)" where
  "calendar_loop holiday_dates holiday_desc current_date calendar_days =
     (if current_date \<le> end_date then
        calendar_loop holiday_dates holiday_desc (current_date + 1)
          (calendar_days(current_date \<mapsto> classify holiday_dates holiday_desc current_date))
      else calendar_days)"
  by pat_completeness auto
termination
  by (relation "measure (\<lambda>(hd, hm, d, c). nat (end_date + 1 - d))") auto

declare calendar_loop.simps [simp del]

text \<open>The dictionary \<open>holiday_desc\<close>: a later row of the same date replaces an earlier one.\<close>

definition holiday_desc_of :: "(date \<times> string) list \<Rightarrow> (date \<rightharpoonup> string)" where
  "holiday_desc_of city_holidays = fold (\<lambda>h m. m(fst h \<mapsto> snd h)) city_holidays Map.empty"

definition build_calendar :: "(date \<times> string) list \<Rightarrow> (date \<rightharpoonup> day_info)" where
  "build_calendar city_holidays =
     calendar_loop (map fst city_holidays) (holiday_desc_of city_holidays) start_date Map.empty"

section \<open>Clusters of days off\<close>

text \<open>
  The second loop.  Its state is the list of closed clusters and the cluster being collected;
  \<open>cluster_step\<close> is the body of the loop for one date, with the test for the first day of
  a month made after the date has moved on.  Reading \<open>calendar_days[current_date]\<close> raises \<open>KeyError\<close> on a missing key: the result
  \<open>None\<close> stands for an exception that leaves the function.
\<close>

definition cluster_step ::
  "day_info \<Rightarrow> date \<Rightarrow> date list \<Rightarrow> date list list \<Rightarrow> date list \<times> date list list" where
  "cluster_step info current_date current_cluster clusters =
     (let (cluster1, clusters1) =
            (if dtype info \<in> {Holiday, Weekend} then (current_cluster @ [current_date], clusters)
             else if length current_cluster > 0 then ([], clusters @ [current_cluster])
             else (current_cluster, clusters))
      in if day (current_date + 1) = 1 \<and> length cluster1 > 0
         then ([], clusters1 @ [cluster1])
         else (cluster1, clusters1))"

function clusters_loop ::
  "(date \<rightharpoonup> day_info) \<Rightarrow> date \<Rightarrow> date list \<Rightarrow> date list list \<Rightarrow> (date list list \<times> date list) option" where
  "clusters_loop calendar_days current_date current_cluster clusters =
     (if current_date \<le> end_date then
        (case calendar_days current_date of
           None \<Rightarrow> None
         | Some info \<Rightarrow>
             (case cluster_step info current_date current_cluster clusters of
                (cluster2, clusters2) \<Rightarrow>
                  clusters_loop calendar_days (current_date + 1) cluster2 clusters2))
      else Some (clusters, current_cluster))"
  by pat_completeness auto
termination
  by (relation "measure (\<lambda>(c, d, cc, cs). nat (end_date + 1 - d))") auto

declare clusters_loop.simps [simp del]

definition find_clusters :: "(date \<rightharpoonup> day_info) \<Rightarrow> date list list option" where
  "find_clusters calendar_days =
     (case clusters_loop calendar_days start_date [] [] of
        None \<Rightarrow> None
      | Some (clusters, current_cluster) \<Rightarrow>
          Some (if length current_cluster > 0 then clusters @ [current_cluster] else clusters))"

section \<open>Leave suggestions\<close>

record suggestion =
  sg_start_date :: date
  sg_end_date :: date
  leaves_used :: int
  total_days_off :: int
  sg_value :: rat
  leave_dates :: "date list"
  holiday_info :: "string list"

text \<open>
  \<open>list.sort(key=..., reverse=True)\<close>: the list is reversed, sorted stably by ascending key
  and reversed again, so equal keys keep their order.
\<close>

definition sort_reverse :: "('a \<Rightarrow> 'k::linorder) \<Rightarrow> 'a list \<Rightarrow> 'a list" where
  "sort_reverse key xs = rev (sort_key key (rev xs))"

text \<open>\<open>min\<close> and \<open>max\<close> of a list raise \<open>ValueError\<close> on the empty list.\<close>

fun py_min :: "date list \<Rightarrow> date option" where
  "py_min [] = None"
| "py_min (x # xs) = Some (fold min xs x)"

fun py_max :: "date list \<Rightarrow> date option" where
  "py_max [] = None"
| "py_max (x # xs) = Some (fold max xs x)"

text \<open>The scan of the workdays before a cluster, at most two of them.\<close>

function scan_before ::
  "(date \<rightharpoonup> day_info) \<Rightarrow> int \<Rightarrow> date \<Rightarrow> date list \<Rightarrow> date list option" where
  "scan_before calendar_days leaves_remaining check_date potential_before =
     (if leaves_remaining > 0 \<and> check_date \<ge> start_date then
        (case calendar_days check_date of
           None \<Rightarrow> None
         | Some info \<Rightarrow>
             if dtype info = Workday then
               (if length (potential_before @ [check_date]) \<ge> 2
                then Some (potential_before @ [check_date])
                else scan_before calendar_days leaves_remaining (check_date - 1)
                       (potential_before @ [check_date]))
             else Some potential_before)
      else Some potential_before)"
  by pat_completeness auto
termination
  by (relation "measure (\<lambda>(c, r, d, p). nat (d + 1 - start_date))") auto

declare scan_before.simps [simp del]

text \<open>The scan of the workdays after a cluster, at most two of them.\<close>

function scan_after ::
  "(date \<rightharpoonup> day_info) \<Rightarrow> int \<Rightarrow> date \<Rightarrow> date list \<Rightarrow> date list option" where
  "scan_after calendar_days leaves_remaining check_date potential_after =
     (if leaves_remaining > 0 \<and> check_date \<le> end_date then
        (case calendar_days check_date of
           None \<Rightarrow> None
         | Some info \<Rightarrow>
             if dtype info = Workday then
               (if length (potential_after @ [check_date]) \<ge> 2
                then Some (potential_after @ [check_date])
                else scan_after calendar_days leaves_remaining (check_date + 1)
                       (potential_after @ [check_date]))
             else Some potential_after)
      else Some potential_after)"
  by pat_completeness auto
termination
  by (relation "measure (\<lambda>(c, r, d, p). nat (end_date + 1 - d))") auto

declare scan_after.simps [simp del]

text \<open>The loop that takes the first \<open>leaves_to_use\<close> dates of \<open>all_potential\<close>.\<close>

fun take_leaves :: "int \<Rightarrow> date list \<Rightarrow> int \<times> date list \<Rightarrow> int \<times> date list" where
  "take_leaves leaves_to_use [] st = st"
| "take_leaves leaves_to_use (d # ds) (used, dates) =
     (if used < leaves_to_use then take_leaves leaves_to_use ds (used + 1, dates @ [d])
      else take_leaves leaves_to_use ds (used, dates))"

definition two_digits :: "int \<Rightarrow> string" where
  "two_digits n = [digit_char (nat (n div 10)), digit_char (nat (n mod 10))]"

definition month_abbr :: "string list" where
  "month_abbr = [''Jan'', ''Feb'', ''Mar'', ''Apr'', ''May'', ''Jun'',
                 ''Jul'', ''Aug'', ''Sep'', ''Oct'', ''Nov'', ''Dec'']"

text \<open>\<open>date.strftime('%d-%b')\<close>.\<close>

definition strftime_d_b :: "date \<Rightarrow> string" where
  "strftime_d_b d = two_digits (day d) @ ''-'' @ month_abbr ! nat (month d - 1)"

fun holiday_info_loop :: "(date \<rightharpoonup> day_info) \<Rightarrow> date list \<Rightarrow> string list \<Rightarrow> string list option" where
  "holiday_info_loop calendar_days [] info = Some info"
| "holiday_info_loop calendar_days (d # ds) info =
     (case calendar_days d of
        None \<Rightarrow> None
      | Some e \<Rightarrow>
          if dtype e = Holiday
          then holiday_info_loop calendar_days ds (info @ [strftime_d_b d @ '': '' @ description e])
          else holiday_info_loop calendar_days ds info)"

text \<open>
  The body of the loop over the clusters.  The result \<open>Some None\<close> is a cluster that gives no
  suggestion, \<open>Some (Some s)\<close> the suggestion appended for it, \<open>None\<close> an exception.
  The quotient \<open>days_off / leaves_to_use\<close> is kept as an exact rational; the test against
  \<open>1.5\<close> and the later sort by value compare quotients of small integers.
\<close>

definition process_cluster ::
  "(date \<rightharpoonup> day_info) \<Rightarrow> date list \<Rightarrow> int \<Rightarrow> suggestion option option" where
  "process_cluster calendar_days cluster leaves_remaining =
     do {
       cluster_start \<leftarrow> py_min cluster;
       cluster_end \<leftarrow> py_max cluster;
       potential_before \<leftarrow> scan_before calendar_days leaves_remaining (cluster_start - 1) [];
       potential_after \<leftarrow> scan_after calendar_days leaves_remaining (cluster_end + 1) [];
       if potential_before \<noteq> [] \<or> potential_after \<noteq> [] then
         (let leaves_to_use = min leaves_remaining (int (length potential_before + length potential_after));
              days_off = int (length cluster) + leaves_to_use;
              v = (if leaves_to_use > 0 then of_int days_off / of_int leaves_to_use else 0)
          in if v \<ge> 3 / 2 then
               (let all_potential = sort (potential_before @ potential_after);
                    (used, dates) = take_leaves leaves_to_use all_potential (0, [])
                in if dates \<noteq> [] then
                     do {
                       info \<leftarrow> holiday_info_loop calendar_days cluster [];
                       total_first \<leftarrow> py_min (sort (cluster @ dates));
                       total_last \<leftarrow> py_max (sort (cluster @ dates));
                       Some (Some \<lparr>sg_start_date = total_first,
                                   sg_end_date = total_last,
                                   leaves_used = used,
                                   total_days_off = int (length (sort (cluster @ dates))),
                                   sg_value = v,
                                   leave_dates = sort dates,
                                   holiday_info = info\<rparr>)
                     }
                   else Some None)
             else Some None)
       else Some None
     }"

text \<open>The loop over the clusters, with the leaves that remain and the suggestions so far.\<close>

fun optimize_loop ::
  "(date \<rightharpoonup> day_info) \<Rightarrow> date list list \<Rightarrow> int \<Rightarrow> suggestion list \<Rightarrow> suggestion list option" where
  "optimize_loop calendar_days [] leaves_remaining leave_suggestions = Some leave_suggestions"
| "optimize_loop calendar_days (cluster # clusters) leaves_remaining leave_suggestions =
     (if leaves_remaining \<le> 0 then Some leave_suggestions
      else
        (case process_cluster calendar_days cluster leaves_remaining of
           None \<Rightarrow> None
         | Some None \<Rightarrow> optimize_loop calendar_days clusters leaves_remaining leave_suggestions
         | Some (Some s) \<Rightarrow>
             optimize_loop calendar_days clusters (leaves_remaining - leaves_used s)
               (leave_suggestions @ [s])))"

text \<open>
  \<open>_find_optimal_leave_periods\<close> up to the end of the loop over the clusters: the suggestions
  in the order of their production.
\<close>

definition produce_suggestions ::
  "holiday_row list \<Rightarrow> string \<Rightarrow> int \<Rightarrow> suggestion list option" where
  "produce_suggestions holidays_df city available_leaves =
     do {
       let calendar_days = build_calendar (get_holidays_for_city holidays_df city);
       clusters \<leftarrow> find_clusters calendar_days;
       optimize_loop calendar_days (sort_reverse length clusters) available_leaves []
     }"

text \<open>The whole function: the suggestions are sorted by value, best first.\<close>

definition find_optimal_leave_periods ::
  "holiday_row list \<Rightarrow> string \<Rightarrow> int \<Rightarrow> suggestion list option" where
  "find_optimal_leave_periods holidays_df city available_leaves =
     do {
       leave_suggestions \<leftarrow> produce_suggestions holidays_df city available_leaves;
       Some (sort_reverse sg_value leave_suggestions)
     }"

section \<open>Plans of the employees\<close>

text \<open>A Python float: a finite value, an infinity or NaN.\<close>

datatype pyfloat = Finite rat | PosInf | NegInf | NaN

text \<open>
  A cell of the employee sheet as \<open>pandas\<close> hands it over: an integer, a float (an empty cell
  is NaN, and a numeric column with an empty cell or with the text \<open>inf\<close> is a column of
  floats), a truth value, a text or \<open>None\<close>.
\<close>

datatype cell = CInt int | CFloat pyfloat | CBool bool | CStr string | CNone

datatype py_exception = ValueError | TypeError | OverflowError

text \<open>
  The white space that \<open>int\<close> removes at both ends of a string: the six ASCII characters,
  and next line \<open>0x85\<close> and no-break space \<open>0xA0\<close>.
\<close>

definition is_space :: "char \<Rightarrow> bool" where
  "is_space c =
     (c \<in> set [CHR '' '', CHR 0x09, CHR 0x0A, CHR 0x0B, CHR 0x0C, CHR 0x0D, CHR 0x85, CHR 0xA0])"

definition strip :: "string \<Rightarrow> string" where
  "strip s = rev (dropWhile is_space (rev (dropWhile is_space s)))"

text \<open>Decimal digits, a single underscore allowed between two digits.\<close>

fun parse_digits :: "int \<Rightarrow> string \<Rightarrow> int option" where
  "parse_digits acc [] = Some acc"
| "parse_digits acc [c] = (case digit c of None \<Rightarrow> None | Some v \<Rightarrow> Some (10 * acc + v))"
| "parse_digits acc (c # d # ds) =
     (if c = CHR ''_'' then
        (case digit d of None \<Rightarrow> None | Some v \<Rightarrow> parse_digits (10 * acc + v) ds)
      else
        (case digit c of None \<Rightarrow> None | Some v \<Rightarrow> parse_digits (10 * acc + v) (d # ds)))"

definition parse_unsigned :: "string \<Rightarrow> int option" where
  "parse_unsigned s =
     (case s of
        [] \<Rightarrow> None
      | c # cs \<Rightarrow> (case digit c of None \<Rightarrow> None | Some v \<Rightarrow> parse_digits v cs))"

text \<open>
  The limit of CPython (3.11, and the security releases of the versions before it) on the
  digits of a string given to \<open>int\<close>: more digits raise \<open>ValueError\<close>.  The repository does
  not change the default of 4300.
\<close>

definition max_str_digits :: nat where
  "max_str_digits = 4300"

definition is_digit :: "char \<Rightarrow> bool" where
  "is_digit c = (digit c \<noteq> None)"

text \<open>\<open>int(s)\<close> on a string, \<open>None\<close> for \<open>ValueError\<close>.\<close>

definition int_of_str :: "string \<Rightarrow> int option" where
  "int_of_str s =
     (case strip s of
        [] \<Rightarrow> None
      | c # cs \<Rightarrow>
          if max_str_digits < length (filter is_digit (c # cs)) then None
          else if c = CHR ''-'' then map_option uminus (parse_unsigned cs)
          else if c = CHR ''+'' then parse_unsigned cs
          else parse_unsigned (c # cs))"

text \<open>\<open>int(x)\<close> on a finite float: the fractional part is dropped.\<close>

definition float_trunc :: "rat \<Rightarrow> int" where
  "float_trunc q = (if 0 \<le> q then \<lfloor>q\<rfloor> else \<lceil>q\<rceil>)"

text \<open>\<open>int(x)\<close> on a cell.\<close>

fun py_int :: "cell \<Rightarrow> py_exception + int" where
  "py_int (CInt n) = Inr n"
| "py_int (CFloat (Finite q)) = Inr (float_trunc q)"
| "py_int (CFloat PosInf) = Inl OverflowError"
| "py_int (CFloat NegInf) = Inl OverflowError"
| "py_int (CFloat NaN) = Inl ValueError"
| "py_int (CBool b) = Inr (if b then 1 else 0)"
| "py_int (CStr s) = (case int_of_str s of None \<Rightarrow> Inl ValueError | Some n \<Rightarrow> Inr n)"
| "py_int CNone = Inl TypeError"

text \<open>
  \<open>str(x)\<close> on a cell, which is also how an f-string formats it.  The digits that \<open>str\<close>
  gives for a finite float are not modelled: the function says nothing for that case.
\<close>

fun py_str :: "cell \<Rightarrow> string" where
  "py_str (CInt n) = str_of_int n"
| "py_str (CFloat PosInf) = ''inf''"
| "py_str (CFloat NegInf) = ''-inf''"
| "py_str (CFloat NaN) = ''nan''"
| "py_str (CBool b) = (if b then ''True'' else ''False'')"
| "py_str (CStr s) = s"
| "py_str CNone = ''None''"

record employee_row =
  emp_name :: string
  emp_id :: string
  emp_city :: cell
  emp_leaves :: cell

record planner =
  holidays_df :: "holiday_row list"
  employees_df :: "employee_row list"
  cities :: "string list"

record plan_result =
  Employee_Name :: string
  Employee_ID :: string
  City :: string
  Status :: "string option"
  Available_Leaves :: "int option"
  Suggestions :: "suggestion list"

text \<open>
  The \<open>try\<close> around \<open>int(...)\<close>: \<open>ValueError\<close> and \<open>TypeError\<close> are caught and give the
  default of 10 and one printed line; any other exception leaves the function, which is the
  result \<open>None\<close>.  The result is the number of leaves together with the lines printed.
\<close>

definition resolve_leaves :: "string \<Rightarrow> cell \<Rightarrow> (int \<times> string list) option" where
  "resolve_leaves name c =
     (case py_int c of
        Inr n \<Rightarrow> Some (n, [])
      | Inl e \<Rightarrow>
          if e = ValueError \<or> e = TypeError then
            Some (10, [''Warning: Invalid leave value for '' @ name @ '': '' @ py_str c
                         @ ''. Using default of 10.''])
          else None)"

text \<open>The test of the search for a close match: one city name occurs in the other, letter
  case ignored.\<close>

definition close_match :: "string \<Rightarrow> string \<Rightarrow> bool" where
  "close_match city holiday_city =
     (substr_in (lower city) (lower holiday_city) \<or> substr_in (lower holiday_city) (lower city))"

text \<open>The search: the first known city that passes the test.\<close>

fun match_city :: "string \<Rightarrow> string list \<Rightarrow> string option" where
  "match_city city [] = None"
| "match_city city (holiday_city # rest) =
     (if close_match city holiday_city then Some holiday_city else match_city city rest)"

text \<open>
  The body of the loop over the employees.  The number of leaves is converted first, so an
  exception that escapes there ends the run before the city is looked at.
  \<open>if matched_city:\<close> is false for \<open>None\<close> and for the empty string.
\<close>

definition plan_employee :: "planner \<Rightarrow> employee_row \<Rightarrow> plan_result option" where
  "plan_employee p employee =
     (case resolve_leaves (emp_name employee) (emp_leaves employee) of
        None \<Rightarrow> None
      | Some (available_leaves, printed) \<Rightarrow>
     (let city = py_str (emp_city employee);
          planned = (\<lambda>c. case find_optimal_leave_periods (holidays_df p) c available_leaves of
                            None \<Rightarrow> None
                          | Some leave_suggestions \<Rightarrow>
                              Some \<lparr>Employee_Name = emp_name employee,
                                    Employee_ID = emp_id employee,
                                    City = c,
                                    Status = None,
                                    Available_Leaves = Some available_leaves,
                                    Suggestions = leave_suggestions\<rparr>)
      in if city \<notin> set (cities p) then
           (case match_city city (cities p) of
              Some matched_city \<Rightarrow>
                if matched_city \<noteq> [] then planned matched_city
                else Some \<lparr>Employee_Name = emp_name employee,
                           Employee_ID = emp_id employee,
                           City = city,
                           Status = Some (''Error: City '' @ [CHR 0x27] @ city @ [CHR 0x27] @ '' not found in holiday list''),
                           Available_Leaves = None,
                           Suggestions = []\<rparr>
            | None \<Rightarrow>
                Some \<lparr>Employee_Name = emp_name employee,
                      Employee_ID = emp_id employee,
                      City = city,
                      Status = Some (''Error: City '' @ [CHR 0x27] @ city @ [CHR 0x27] @ '' not found in holiday list''),
                      Available_Leaves = None,
                      Suggestions = []\<rparr>)
         else planned city))"

fun generate_loop :: "planner \<Rightarrow> employee_row list \<Rightarrow> plan_result list \<Rightarrow> plan_result list option" where
  "generate_loop p [] results = Some results"
| "generate_loop p (employee # rest) results =
     (case plan_employee p employee of
        None \<Rightarrow> None
      | Some r \<Rightarrow> generate_loop p rest (results @ [r]))"

definition generate_leave_plans :: "planner \<Rightarrow> plan_result list option" where
  "generate_leave_plans p = generate_loop p (employees_df p) []"

section \<open>Predicates used in the statements\<close>

definition off_day :: "(date \<rightharpoonup> day_info) \<Rightarrow> date \<Rightarrow> bool" where
  "off_day calendar_days d =
     (case calendar_days d of None \<Rightarrow> False | Some info \<Rightarrow> dtype info \<in> {Holiday, Weekend})"

definition is_workday :: "(date \<rightharpoonup> day_info) \<Rightarrow> date \<Rightarrow> bool" where
  "is_workday calendar_days d =
     (case calendar_days d of None \<Rightarrow> False | Some info \<Rightarrow> dtype info = Workday)"

definition cluster_ok :: "(date \<rightharpoonup> day_info) \<Rightarrow> date list \<Rightarrow> bool" where
  "cluster_ok calendar_days c =
     (c \<noteq> [] \<and> c = [hd c..last c] \<and> start_date \<le> hd c \<and> last c \<le> end_date \<and>
      list_all (off_day calendar_days) c \<and> list_all (\<lambda>d. month d = month (hd c)) c)"

definition chronological :: "date list list \<Rightarrow> bool" where
  "chronological clusters = sorted_wrt (\<lambda>a b. last a < hd b) clusters"

definition clusters_inv ::
  "(date \<rightharpoonup> day_info) \<Rightarrow> date \<Rightarrow> date list \<Rightarrow> date list list \<Rightarrow> bool" where
  "clusters_inv calendar_days cur cc cls =
     (list_all (\<lambda>c. cluster_ok calendar_days c \<and> last c < (if cc = [] then cur else hd cc)) cls \<and>
      chronological cls \<and>
      (cc \<noteq> [] \<longrightarrow>
         cc = [hd cc..cur - 1] \<and> start_date \<le> hd cc \<and> hd cc \<le> cur - 1 \<and>
         list_all (off_day calendar_days) cc \<and>
         list_all (\<lambda>d. month d = month (cur - 1)) cc \<and> day cur \<noteq> 1))"

text \<open>A holiday sheet with one row, used to run the planner on a concrete input.\<close>

definition sample_holidays :: "holiday_row list" where
  "sample_holidays =
     [\<lparr>Date = ''15-Aug'', Holiday_Description = ''Independence Day'',
       city_cell = (\<lambda>c. if c = ''Mumbai'' then ''Holiday'' else ''Working'')\<rparr>]"

text \<open>The holidays of a city whose only holiday is Wednesday 1 October, day 273.\<close>

definition midweek_holidays :: "(date \<times> string) list" where
  "midweek_holidays = [(273, ''Founders Day'')]"

text \<open>A planner on the sample sheet with three employees: a city that is not known, a city
  that matches a known one, and a known city with a negative number of leaves.\<close>

definition sample_employees :: "employee_row list" where
  "sample_employees =
     [\<lparr>emp_name = ''Asha'', emp_id = ''E1'', emp_city = CStr ''Atlantis'', emp_leaves = CInt 5\<rparr>,
      \<lparr>emp_name = ''Ravi'', emp_id = ''E2'', emp_city = CStr ''mumbai office'', emp_leaves = CStr ''N/A''\<rparr>,
      \<lparr>emp_name = ''Meena'', emp_id = ''E3'', emp_city = CStr ''Mumbai'', emp_leaves = CInt (- 3)\<rparr>]"

definition sample_planner :: planner where
  "sample_planner =
     \<lparr>holidays_df = sample_holidays, employees_df = sample_employees, cities = [''Mumbai'']\<rparr>"

text \<open>The same sheet with a fourth employee, whose number of leaves is the float infinity
  (the text \<open>inf\<close> in a column of numbers).\<close>

definition overflow_planner :: planner where
  "overflow_planner =
     \<lparr>holidays_df = sample_holidays,
      employees_df = sample_employees @
        [\<lparr>emp_name = ''Kiran'', emp_id = ''E4'', emp_city = CStr ''Mumbai'',
          emp_leaves = CFloat PosInf\<rparr>],
      cities = [''Mumbai'']\<rparr>"





text \<open>Auxiliary notions for the decimal text of a number: a decimal digit, and one step of
  reading a number digit by digit.\<close>

definition decimal :: "char \<Rightarrow> bool" where
  "decimal c = (\<exists>k < 10. c = digit_char k)"

definition digit_step :: "int \<Rightarrow> char \<Rightarrow> int" where
  "digit_step a c = 10 * a + the (digit c)"

section \<open>Auxiliary lemmas\<close>

subsection \<open>The calendar\<close>

lemma calendar_loop_lookup:
  "calendar_loop hs hm cur cal d =
     (if cur \<le> d \<and> d \<le> end_date then Some (classify hs hm d) else cal d)"
proof (induction hs hm cur cal rule: calendar_loop.induct)
  case (1 hs hm cur cal)
  show ?case
  proof (cases "cur \<le> end_date")
    case True
    note IH = 1 [OF True]
    show ?thesis
      by (subst calendar_loop.simps) (simp add: IH True)
  next
    case False
    then show ?thesis
      by (subst calendar_loop.simps) auto
  qed
qed

lemma build_calendar_lookup:
  "build_calendar hs d =
     (if start_date \<le> d \<and> d \<le> end_date
      then Some (classify (map fst hs) (holiday_desc_of hs) d) else None)"
  by (simp add: build_calendar_def calendar_loop_lookup)

subsection \<open>Months and days\<close>

lemma month_day_from_zero:
  "\<forall>l \<in> set ls. 0 < l \<Longrightarrow> month_day_from ls m 0 = (m, 1)"
  by (cases ls) auto

lemma month_day_from_succ:
  "\<forall>l \<in> set ls. 0 < l \<Longrightarrow> 0 \<le> n \<Longrightarrow> snd (month_day_from ls m (n + 1)) \<noteq> 1 \<Longrightarrow>
   fst (month_day_from ls m (n + 1)) = fst (month_day_from ls m n)"
proof (induction ls arbitrary: m n)
  case Nil
  then show ?case by simp
next
  case (Cons l ls)
  show ?case
  proof (cases "n + 1 < l")
    case True
    then show ?thesis by simp
  next
    case False
    show ?thesis
    proof (cases "n < l")
      case True
      with False have "n + 1 - l = 0" by simp
      with Cons.prems False have False
        by (simp add: month_day_from_zero)
      then show ?thesis ..
    next
      case nl: False
      have eq: "n + 1 - l = (n - l) + 1" by simp
      have pos: "\<forall>l \<in> set ls. 0 < l" using Cons.prems(1) by simp
      have "snd (month_day_from ls (m + 1) ((n - l) + 1)) \<noteq> 1"
        using Cons.prems(3) False by (simp add: eq)
      from Cons.IH [OF pos _ this] nl
      have "fst (month_day_from ls (m + 1) ((n - l) + 1)) = fst (month_day_from ls (m + 1) (n - l))"
        by simp
      with nl False show ?thesis by (simp add: eq)
    qed
  qed
qed

lemma month_lengths_pos: "\<forall>l \<in> set month_lengths. 0 < l"
  by (simp add: month_lengths_def)

lemma month_succ:
  assumes "0 \<le> d" "d + 1 \<le> end_date" "day (d + 1) \<noteq> 1"
  shows "month (d + 1) = month d"
proof -
  from assms have "(d + 1) mod 365 = d + 1" "d mod 365 = d"
    by (simp_all add: end_date_def)
  with assms show ?thesis
    using month_day_from_succ [OF month_lengths_pos, of d 1]
    by (simp add: month_def day_def month_day_def)
qed

subsection \<open>The cluster loop\<close>

lemma hd_upto: "i \<le> j \<Longrightarrow> hd [i..j] = i"
  by (simp add: upto_rec1)

lemma last_upto: "i \<le> j \<Longrightarrow> last [i..j] = j"
  by (simp add: upto_rec2)

lemma upto_snoc: "a \<le> b + 1 \<Longrightarrow> [a..b] @ [b + 1] = [a..b + 1]"
  by (simp add: upto_rec2 [of a "b + 1"])

lemma chronological_snoc:
  "chronological (cls @ [c]) = (chronological cls \<and> list_all (\<lambda>a. last a < hd c) cls)"
  by (auto simp: chronological_def sorted_wrt_append list_all_iff)

lemma clusters_inv_close:
  assumes inv: "clusters_inv cal cur cc cls" and ne: "cc \<noteq> []" and le: "cur - 1 \<le> end_date"
  shows "clusters_inv cal (cur + 1) [] (cls @ [cc])"
proof -
  from inv ne have cc: "cc = [hd cc..cur - 1]" "start_date \<le> hd cc" "hd cc \<le> cur - 1"
    "list_all (off_day cal) cc" "list_all (\<lambda>d. month d = month (cur - 1)) cc"
    and cls: "list_all (\<lambda>c. cluster_ok cal c \<and> last c < hd cc) cls" "chronological cls"
    by (simp_all add: clusters_inv_def)
  have last: "last cc = cur - 1"
    using cc(1,3) last_upto [of "hd cc" "cur - 1"] by simp
  have "hd cc \<in> set cc" using ne by simp
  with cc(5) have "month (hd cc) = month (cur - 1)" by (simp add: list_all_iff)
  with cc(5) have mon: "list_all (\<lambda>d. month d = month (hd cc)) cc" by (simp add: list_all_iff)
  have ok: "cluster_ok cal cc"
    unfolding cluster_ok_def using ne cc last le mon by simp
  have "list_all (\<lambda>c. cluster_ok cal c \<and> last c < cur + 1) cls"
    using cls(1) cc(3) by (auto simp: list_all_iff)
  moreover have "list_all (\<lambda>a. last a < hd cc) cls"
    using cls(1) by (auto simp: list_all_iff)
  ultimately show ?thesis
    using ok last cls(2) by (simp add: clusters_inv_def chronological_snoc)
qed

lemma clusters_inv_extend:
  assumes inv: "clusters_inv cal cur cc cls" and off: "off_day cal cur"
    and lo: "start_date \<le> cur" and hi: "cur \<le> end_date"
  shows "cc @ [cur] = [hd (cc @ [cur])..cur]" "start_date \<le> hd (cc @ [cur])" "hd (cc @ [cur]) \<le> cur"
    "list_all (off_day cal) (cc @ [cur])" "list_all (\<lambda>d. month d = month cur) (cc @ [cur])"
    "list_all (\<lambda>c. cluster_ok cal c \<and> last c < hd (cc @ [cur])) cls"
proof -
  show "cc @ [cur] = [hd (cc @ [cur])..cur]"
  proof (cases "cc = []")
    case True then show ?thesis by simp
  next
    case False
    with inv have cc: "cc = [hd cc..cur - 1]" "hd cc \<le> cur - 1" by (simp_all add: clusters_inv_def)
    have "[hd cc..cur - 1] @ [cur - 1 + 1] = [hd cc..cur - 1 + 1]"
      using cc(2) by (intro upto_snoc) simp
    then have "cc @ [cur] = [hd cc..cur]" using cc(1) by simp
    moreover have "hd (cc @ [cur]) = hd cc" using False by simp
    ultimately show ?thesis by simp
  qed
  show "start_date \<le> hd (cc @ [cur])"
    using inv lo by (cases "cc = []") (simp_all add: clusters_inv_def)
  show "hd (cc @ [cur]) \<le> cur"
    using inv by (cases "cc = []") (simp_all add: clusters_inv_def)
  show "list_all (off_day cal) (cc @ [cur])"
    using inv off by (cases "cc = []") (simp_all add: clusters_inv_def)
  show "list_all (\<lambda>d. month d = month cur) (cc @ [cur])"
  proof (cases "cc = []")
    case True then show ?thesis by simp
  next
    case False
    with inv have cc: "start_date \<le> hd cc" "hd cc \<le> cur - 1"
      "list_all (\<lambda>d. month d = month (cur - 1)) cc" "day cur \<noteq> 1"
      by (simp_all add: clusters_inv_def)
    have "month (cur - 1 + 1) = month (cur - 1)"
      using cc(1,2,4) hi by (intro month_succ) (simp_all add: start_date_def)
    with cc(3) show ?thesis by simp
  qed
  show "list_all (\<lambda>c. cluster_ok cal c \<and> last c < hd (cc @ [cur])) cls"
    using inv by (cases "cc = []") (simp_all add: clusters_inv_def)
qed

lemma clusters_inv_keep:
  assumes inv: "clusters_inv cal cur cc cls" and off: "off_day cal cur"
    and lo: "start_date \<le> cur" and hi: "cur \<le> end_date" and d1: "day (cur + 1) \<noteq> 1"
  shows "clusters_inv cal (cur + 1) (cc @ [cur]) cls"
  using clusters_inv_extend [OF inv off lo hi] inv d1
  by (simp add: clusters_inv_def)

lemma clusters_inv_split:
  assumes inv: "clusters_inv cal cur cc cls" and off: "off_day cal cur"
    and lo: "start_date \<le> cur" and hi: "cur \<le> end_date"
  shows "clusters_inv cal (cur + 1) [] (cls @ [cc @ [cur]])"
proof -
  note e = clusters_inv_extend [OF inv off lo hi]
  have last: "last (cc @ [cur]) = cur" by simp
  have "hd (cc @ [cur]) \<in> set (cc @ [cur])" by (rule hd_in_set) simp
  with e(5) have "month (hd (cc @ [cur])) = month cur"
    unfolding list_all_iff by blast
  with e(5) have mon: "list_all (\<lambda>d. month d = month (hd (cc @ [cur]))) (cc @ [cur])"
    by (simp add: list_all_iff)
  have ok: "cluster_ok cal (cc @ [cur])"
    unfolding cluster_ok_def using e(1,2,4) mon hi by simp
  have "list_all (\<lambda>c. cluster_ok cal c \<and> last c < cur + 1) cls"
    using e(6) e(3) by (auto simp: list_all_iff)
  moreover have "list_all (\<lambda>a. last a < hd (cc @ [cur])) cls"
    using e(6) by (auto simp: list_all_iff)
  moreover have "chronological cls" using inv by (simp add: clusters_inv_def)
  ultimately show ?thesis
    using ok by (simp add: clusters_inv_def chronological_snoc)
qed

lemma clusters_inv_skip:
  assumes inv: "clusters_inv cal cur [] cls"
  shows "clusters_inv cal (cur + 1) [] cls"
  using inv by (auto simp: clusters_inv_def list_all_iff)

lemma cluster_step_inv:
  assumes inv: "clusters_inv cal cur cc cls" and info: "cal cur = Some info"
    and lo: "start_date \<le> cur" and hi: "cur \<le> end_date"
    and step: "cluster_step info cur cc cls = (cc2, cls2)"
  shows "clusters_inv cal (cur + 1) cc2 cls2"
proof (cases "dtype info \<in> {Holiday, Weekend}")
  case off: True
  then have offd: "off_day cal cur" by (simp add: off_day_def info)
  show ?thesis
  proof (cases "day (cur + 1) = 1")
    case True
    with step off have "cc2 = []" "cls2 = cls @ [cc @ [cur]]"
      by (simp_all add: cluster_step_def)
    then show ?thesis using clusters_inv_split [OF inv offd lo hi] by simp
  next
    case False
    with step off have "cc2 = cc @ [cur]" "cls2 = cls"
      by (simp_all add: cluster_step_def)
    then show ?thesis using clusters_inv_keep [OF inv offd lo hi False] by simp
  qed
next
  case off: False
  show ?thesis
  proof (cases "cc = []")
    case True
    with step off have "cc2 = []" "cls2 = cls"
      by (simp_all add: cluster_step_def)
    then show ?thesis using clusters_inv_skip inv True by simp
  next
    case False
    with step off have "cc2 = []" "cls2 = cls @ [cc]"
      by (simp_all add: cluster_step_def)
    then show ?thesis using clusters_inv_close [OF inv False] hi by simp
  qed
qed

lemma clusters_loop_inv:
  "clusters_loop cal cur cc cls = Some (cls', cc') \<Longrightarrow> clusters_inv cal cur cc cls \<Longrightarrow>
   start_date \<le> cur \<Longrightarrow> cur \<le> end_date + 1 \<Longrightarrow> clusters_inv cal (end_date + 1) cc' cls'"
proof (induction "nat (end_date + 1 - cur)" arbitrary: cur cc cls)
  case 0
  then have "cur = end_date + 1" by simp
  with "0.prems" show ?case by (simp add: clusters_loop.simps [of cal "end_date + 1"])
next
  case (Suc n)
  then have hi: "cur \<le> end_date" by simp
  from Suc.prems(1) hi obtain info where info: "cal cur = Some info"
    by (subst (asm) clusters_loop.simps) (auto split: option.splits)
  obtain cc2 cls2 where step: "cluster_step info cur cc cls = (cc2, cls2)"
    by (cases "cluster_step info cur cc cls")
  have run: "clusters_loop cal (cur + 1) cc2 cls2 = Some (cls', cc')"
    using Suc.prems(1) hi info step by (subst (asm) clusters_loop.simps) simp
  have inv: "clusters_inv cal (cur + 1) cc2 cls2"
    by (rule cluster_step_inv [OF Suc.prems(2) info Suc.prems(3) hi step])
  have "n = nat (end_date + 1 - (cur + 1))" using Suc.hyps(2) by simp
  from Suc.hyps(1) [OF this run inv] Suc.prems(3) hi show ?case by simp
qed

lemma clusters_loop_total:
  "\<forall>d. start_date \<le> d \<and> d \<le> end_date \<longrightarrow> cal d \<noteq> None \<Longrightarrow> start_date \<le> cur \<Longrightarrow>
   \<exists>r. clusters_loop cal cur cc cls = Some r"
proof (induction "nat (end_date + 1 - cur)" arbitrary: cur cc cls)
  case 0
  then show ?case by (simp add: clusters_loop.simps [of cal cur])
next
  case (Suc n)
  then have hi: "cur \<le> end_date" by simp
  with Suc.prems obtain info where info: "cal cur = Some info" by auto
  obtain cc2 cls2 where step: "cluster_step info cur cc cls = (cc2, cls2)"
    by (cases "cluster_step info cur cc cls")
  have "n = nat (end_date + 1 - (cur + 1))" using Suc.hyps(2) by simp
  from Suc.hyps(1) [OF this Suc.prems(1), of cc2 cls2] Suc.prems(2)
  obtain r where "clusters_loop cal (cur + 1) cc2 cls2 = Some r" by auto
  then show ?case using hi info step by (subst clusters_loop.simps) simp
qed

lemma clusters_inv_init: "clusters_inv cal start_date [] []"
  by (simp add: clusters_inv_def chronological_def)

lemma find_clusters_ok:
  assumes "find_clusters cal = Some clusters"
  shows "list_all (cluster_ok cal) clusters" "chronological clusters"
proof -
  from assms obtain cls cc where run: "clusters_loop cal start_date [] [] = Some (cls, cc)"
    and out: "clusters = (if length cc > 0 then cls @ [cc] else cls)"
    by (auto simp: find_clusters_def split: option.splits)
  have inv: "clusters_inv cal (end_date + 1) cc cls"
    using clusters_loop_inv [OF run clusters_inv_init] by (simp add: start_date_def end_date_def)
  show "list_all (cluster_ok cal) clusters"
  proof (cases "cc = []")
    case True
    with inv out show ?thesis by (auto simp: clusters_inv_def list_all_iff)
  next
    case False
    from clusters_inv_close [OF inv False] have "clusters_inv cal (end_date + 1 + 1) [] (cls @ [cc])"
      by simp
    with out False show ?thesis by (auto simp: clusters_inv_def list_all_iff)
  qed
  show "chronological clusters"
  proof (cases "cc = []")
    case True
    with inv out show ?thesis by (auto simp: clusters_inv_def)
  next
    case False
    from clusters_inv_close [OF inv False] have "clusters_inv cal (end_date + 1 + 1) [] (cls @ [cc])"
      by simp
    with out False show ?thesis by (auto simp: clusters_inv_def)
  qed
qed

lemma find_clusters_total:
  assumes "\<forall>d. start_date \<le> d \<and> d \<le> end_date \<longrightarrow> cal d \<noteq> None"
  shows "\<exists>clusters. find_clusters cal = Some clusters"
proof -
  from clusters_loop_total [OF assms, of start_date "[]" "[]"]
  obtain r where "clusters_loop cal start_date [] [] = Some r" by auto
  then show ?thesis by (cases r) (simp add: find_clusters_def)
qed

subsection \<open>The scans\<close>

lemma scan_before_cases:
  assumes "scan_before cal rem chk [] = Some r"
  shows "(r = [] \<and> \<not> (rem > 0 \<and> start_date \<le> chk \<and> is_workday cal chk))
       \<or> (r = [chk] \<and> rem > 0 \<and> start_date \<le> chk \<and> is_workday cal chk \<and>
            \<not> (start_date \<le> chk - 1 \<and> is_workday cal (chk - 1)))
       \<or> (r = [chk, chk - 1] \<and> rem > 0 \<and> start_date \<le> chk - 1 \<and> is_workday cal chk \<and>
            is_workday cal (chk - 1))"
  using assms
  apply (subst (asm) scan_before.simps)
  apply (subst (asm) scan_before.simps)
  apply (auto simp: is_workday_def split: option.splits if_splits)
  done

lemma scan_after_cases:
  assumes "scan_after cal rem chk [] = Some r"
  shows "(r = [] \<and> \<not> (rem > 0 \<and> chk \<le> end_date \<and> is_workday cal chk))
       \<or> (r = [chk] \<and> rem > 0 \<and> chk \<le> end_date \<and> is_workday cal chk \<and>
            \<not> (chk + 1 \<le> end_date \<and> is_workday cal (chk + 1)))
       \<or> (r = [chk, chk + 1] \<and> rem > 0 \<and> chk + 1 \<le> end_date \<and> is_workday cal chk \<and>
            is_workday cal (chk + 1))"
  using assms
  apply (subst (asm) scan_after.simps)
  apply (subst (asm) scan_after.simps)
  apply (auto simp: is_workday_def split: option.splits if_splits)
  done

lemma scan_before_total:
  assumes "\<forall>d. start_date \<le> d \<and> d \<le> end_date \<longrightarrow> cal d \<noteq> None" and "chk \<le> end_date"
  shows "\<exists>r. scan_before cal rem chk [] = Some r"
proof -
  have a: "start_date \<le> chk \<Longrightarrow> cal chk \<noteq> None" using assms by simp
  have b: "start_date \<le> chk - 1 \<Longrightarrow> cal (chk - 1) \<noteq> None" using assms by simp
  show ?thesis
    apply (subst scan_before.simps)
    apply (subst scan_before.simps)
    using a b apply (auto split: option.splits)
    done
qed

lemma scan_after_total:
  assumes "\<forall>d. start_date \<le> d \<and> d \<le> end_date \<longrightarrow> cal d \<noteq> None" and "start_date \<le> chk"
  shows "\<exists>r. scan_after cal rem chk [] = Some r"
proof -
  have a: "chk \<le> end_date \<Longrightarrow> cal chk \<noteq> None" using assms by simp
  have b: "chk + 1 \<le> end_date \<Longrightarrow> cal (chk + 1) \<noteq> None" using assms by simp
  show ?thesis
    apply (subst scan_after.simps)
    apply (subst scan_after.simps)
    using a b apply (auto split: option.splits)
    done
qed

subsection \<open>Taking the leave dates\<close>

lemma take_leaves_eq:
  "u \<le> k \<Longrightarrow>
   take_leaves k xs (u, ds) = (min k (u + int (length xs)), ds @ take (nat (k - u)) xs)"
proof (induction xs arbitrary: u ds)
  case Nil
  then show ?case by simp
next
  case (Cons x xs)
  show ?case
  proof (cases "u < k")
    case True
    then have "nat (k - u) = Suc (nat (k - (u + 1)))" by simp
    with True Cons.IH [of "u + 1" "ds @ [x]"] show ?thesis by simp
  next
    case False
    with Cons.prems have "u = k" by simp
    with Cons.IH [of u ds] show ?thesis by simp
  qed
qed

lemma py_min_Some: "py_min c = Some m \<longleftrightarrow> c \<noteq> [] \<and> m = Min (set c)"
  by (cases c) (auto simp: Min.set_eq_fold [symmetric])

lemma py_max_Some: "py_max c = Some m \<longleftrightarrow> c \<noteq> [] \<and> m = Max (set c)"
  by (cases c) (auto simp: Max.set_eq_fold [symmetric])

lemma py_min_None: "py_min c = None \<longleftrightarrow> c = []"
  by (cases c) auto

lemma py_max_None: "py_max c = None \<longleftrightarrow> c = []"
  by (cases c) auto

lemma holiday_info_loop_total:
  "\<forall>d \<in> set ds. cal d \<noteq> None \<Longrightarrow> \<exists>r. holiday_info_loop cal ds acc = Some r"
  by (induction ds arbitrary: acc) (auto split: option.splits)

subsection \<open>One cluster\<close>

lemma scan_before_length:
  "scan_before cal rem chk [] = Some r \<Longrightarrow> length r \<le> 2 \<and> (r \<noteq> [] \<longrightarrow> 0 < rem)"
  by (drule scan_before_cases) auto

lemma scan_after_length:
  "scan_after cal rem chk [] = Some r \<Longrightarrow> length r \<le> 2 \<and> (r \<noteq> [] \<longrightarrow> 0 < rem)"
  by (drule scan_after_cases) auto

lemma sort_take_sort: "sort (take n (sort xs)) = take n (sort xs)"
  by (rule sorted_sort_id) (simp add: sorted_wrt_take)

lemma process_cluster_Some:
  assumes "process_cluster cal c rem = Some (Some s)"
  shows "\<exists>before after k.
           c \<noteq> [] \<and>
           scan_before cal rem (Min (set c) - 1) [] = Some before \<and>
           scan_after cal rem (Max (set c) + 1) [] = Some after \<and>
           k = min rem (int (length before + length after)) \<and> 0 < k \<and>
           leaves_used s = k \<and>
           leave_dates s = take (nat k) (sort (before @ after)) \<and>
           total_days_off s = int (length c) + k \<and>
           sg_value s = of_int (int (length c) + k) / of_int k \<and>
           3 / 2 \<le> sg_value s \<and>
           holiday_info_loop cal c [] = Some (holiday_info s) \<and>
           sg_start_date s = Min (set c \<union> set (leave_dates s)) \<and>
           sg_end_date s = Max (set c \<union> set (leave_dates s))"
proof -
  from assms obtain cs ce before after where
    cs: "py_min c = Some cs" and ce: "py_max c = Some ce" and
    b: "scan_before cal rem (cs - 1) [] = Some before" and
    a: "scan_after cal rem (ce + 1) [] = Some after"
    unfolding process_cluster_def by (auto simp: bind_eq_Some_conv)
  define k where "k = min rem (int (length before + length after))"
  define dates where "dates = take (nat k) (sort (before @ after))"
  have tl: "take_leaves k (sort (before @ after)) (0, []) = (k, dates)" if "0 \<le> k"
    using that by (simp add: take_leaves_eq dates_def k_def)
  from cs ce have ne: "c \<noteq> []" and cs': "cs = Min (set c)" and ce': "ce = Max (set c)"
    by (simp_all add: py_min_Some py_max_Some)
  have body: "(if before \<noteq> [] \<or> after \<noteq> [] then
         (let leaves_to_use = min rem (int (length before + length after));
              days_off = int (length c) + leaves_to_use;
              v = (if leaves_to_use > 0 then of_int days_off / of_int leaves_to_use else 0)
          in if v \<ge> 3 / 2 then
               (let all_potential = sort (before @ after);
                    (used, dates) = take_leaves leaves_to_use all_potential (0, [])
                in if dates \<noteq> [] then
                     do {
                       info \<leftarrow> holiday_info_loop cal c [];
                       total_first \<leftarrow> py_min (sort (c @ dates));
                       total_last \<leftarrow> py_max (sort (c @ dates));
                       Some (Some \<lparr>sg_start_date = total_first,
                                   sg_end_date = total_last,
                                   leaves_used = used,
                                   total_days_off = int (length (sort (c @ dates))),
                                   sg_value = v,
                                   leave_dates = sort dates,
                                   holiday_info = info\<rparr>)
                     }
                   else Some None)
             else Some None)
       else Some None) = Some (Some s)"
    using assms unfolding process_cluster_def by (simp only: cs ce a b bind.bind_lunit)
  then have nonempty: "before \<noteq> [] \<or> after \<noteq> []" by (auto split: if_splits)
  then have rem: "0 < rem"
    using scan_before_length [OF b] scan_after_length [OF a] by auto
  have "0 < length before + length after" using nonempty by auto
  then have "0 < int (length before + length after)" by linarith
  with rem have kpos: "0 < k" unfolding k_def by simp
  have klen: "nat k \<le> length (sort (before @ after))" by (simp add: k_def)
  have dlen: "int (length dates) = k" using klen kpos by (simp add: dates_def)
  with kpos have dne: "dates \<noteq> []" by auto
  have tl': "take_leaves k (sort (before @ after)) (0, []) = (k, dates)"
    using tl kpos by simp
  have body2: "(if (3::rat) / 2 \<le> of_int (int (length c) + k) / of_int k then
                     do {
                       info \<leftarrow> holiday_info_loop cal c [];
                       total_first \<leftarrow> py_min (sort (c @ dates));
                       total_last \<leftarrow> py_max (sort (c @ dates));
                       Some (Some \<lparr>sg_start_date = total_first,
                                   sg_end_date = total_last,
                                   leaves_used = k,
                                   total_days_off = int (length (sort (c @ dates))),
                                   sg_value = of_int (int (length c) + k) / of_int k,
                                   leave_dates = sort dates,
                                   holiday_info = info\<rparr>)
                     }
             else Some None) = Some (Some s)"
    using body unfolding Let_def k_def [symmetric]
    by (simp only: nonempty kpos tl' dne if_True prod.case not_False_eq_True)
  then obtain info where
    v: "(3::rat) / 2 \<le> of_int (int (length c) + k) / of_int k" and
    info: "holiday_info_loop cal c [] = Some info" and
    s: "s = \<lparr>sg_start_date = Min (set (sort (c @ dates))),
             sg_end_date = Max (set (sort (c @ dates))),
             leaves_used = k,
             total_days_off = int (length (sort (c @ dates))),
             sg_value = of_int (int (length c) + k) / of_int k,
             leave_dates = sort dates,
             holiday_info = info\<rparr>"
    by (auto simp: bind_eq_Some_conv py_min_Some py_max_Some split: if_splits)
  have sd: "sort dates = dates" unfolding dates_def by (rule sort_take_sort)
  have tot: "int (length (sort (c @ dates))) = int (length c) + k" using dlen by simp
  show ?thesis
  proof (rule exI [of _ before], rule exI [of _ after], rule exI [of _ k], intro conjI)
    show "c \<noteq> []" by (rule ne)
    show "scan_before cal rem (Min (set c) - 1) [] = Some before" using b cs' by simp
    show "scan_after cal rem (Max (set c) + 1) [] = Some after" using a ce' by simp
    show "k = min rem (int (length before + length after))" by (rule k_def)
    show "0 < k" by (rule kpos)
    show "leaves_used s = k" by (simp add: s)
    show "leave_dates s = take (nat k) (sort (before @ after))" using sd by (simp add: s dates_def sort_take_sort)
    show "total_days_off s = int (length c) + k" using tot by (simp add: s)
    show "sg_value s = of_int (int (length c) + k) / of_int k" by (simp add: s)
    show "3 / 2 \<le> sg_value s" using v by (simp add: s)
    show "holiday_info_loop cal c [] = Some (holiday_info s)" using info by (simp add: s)
    show "sg_start_date s = Min (set c \<union> set (leave_dates s))" by (simp add: s sd)
    show "sg_end_date s = Max (set c \<union> set (leave_dates s))" by (simp add: s sd)
  qed
qed

lemma cluster_ok_range:
  assumes "cluster_ok cal c"
  shows "c \<noteq> []" "hd c \<le> last c" "set c = {hd c..last c}" "distinct c" "sorted c"
    "Min (set c) = hd c" "Max (set c) = last c" "start_date \<le> hd c" "last c \<le> end_date"
    "\<forall>d \<in> set c. off_day cal d" "\<forall>d \<in> set c. month d = month (hd c)"
    "length c = nat (last c - hd c + 1)"
proof -
  from assms have ne: "c \<noteq> []" and eq: "c = [hd c..last c]"
    unfolding cluster_ok_def by blast+
  show "c \<noteq> []" by (rule ne)
  have "[hd c..last c] \<noteq> []" by (subst eq [symmetric]) (rule ne)
  then show le: "hd c \<le> last c" by simp
  show s: "set c = {hd c..last c}" using arg_cong [OF eq, of set] by simp
  show "distinct c" using arg_cong [OF eq, of distinct] by simp
  show "sorted c" using arg_cong [OF eq, of sorted] by simp
  show "Min (set c) = hd c" unfolding s using le by (intro Min_eqI) auto
  show "Max (set c) = last c" unfolding s using le by (intro Max_eqI) auto
  from assms have parts: "start_date \<le> hd c" "last c \<le> end_date"
    "list_all (off_day cal) c" "list_all (\<lambda>d. month d = month (hd c)) c"
    unfolding cluster_ok_def by blast+
  show "start_date \<le> hd c" "last c \<le> end_date" by (rule parts)+
  show "\<forall>d \<in> set c. off_day cal d" using parts(3) unfolding list_all_iff .
  show "\<forall>d \<in> set c. month d = month (hd c)" using parts(4) unfolding list_all_iff .
  show "length c = nat (last c - hd c + 1)"
    using arg_cong [OF eq, of length] unfolding length_upto .
qed

lemma off_day_not_None: "off_day cal d \<Longrightarrow> cal d \<noteq> None"
  by (auto simp: off_day_def split: option.splits)

lemma sort_not_Nil: "xs \<noteq> [] \<Longrightarrow> sort xs \<noteq> []"
  by (metis length_0_conv length_sort)

lemma process_cluster_total:
  assumes tot: "\<forall>d. start_date \<le> d \<and> d \<le> end_date \<longrightarrow> cal d \<noteq> None"
    and ok: "cluster_ok cal c"
  shows "\<exists>r. process_cluster cal c rem = Some r"
proof -
  note r = cluster_ok_range [OF ok]
  have cs: "py_min c = Some (hd c)" and ce: "py_max c = Some (last c)"
    using r(1,6,7) by (simp_all add: py_min_Some py_max_Some)
  have "hd c - 1 \<le> end_date" using r(2,9) by simp
  from scan_before_total [OF tot this] obtain before where
    b: "scan_before cal rem (hd c - 1) [] = Some before" by auto
  have "start_date \<le> last c + 1" using r(2,8) by simp
  from scan_after_total [OF tot this] obtain after where
    a: "scan_after cal rem (last c + 1) [] = Some after" by auto
  have "\<forall>d \<in> set c. cal d \<noteq> None" using r(10) off_day_not_None by blast
  from holiday_info_loop_total [OF this] obtain info where
    info: "holiday_info_loop cal c [] = Some info" by auto
  have pm: "\<And>ds. \<exists>m. py_min (sort (c @ ds)) = Some m" "\<And>ds. \<exists>m. py_max (sort (c @ ds)) = Some m"
    using r(1) sort_not_Nil [of "c @ ds" for ds] by (simp_all add: py_min_Some py_max_Some)
  have "process_cluster cal c rem =
      (if before \<noteq> [] \<or> after \<noteq> [] then
         (let leaves_to_use = min rem (int (length before + length after));
              days_off = int (length c) + leaves_to_use;
              v = (if leaves_to_use > 0 then of_int days_off / of_int leaves_to_use else 0)
          in if v \<ge> 3 / 2 then
               (let all_potential = sort (before @ after);
                    (used, dates) = take_leaves leaves_to_use all_potential (0, [])
                in if dates \<noteq> [] then
                     do {
                       info \<leftarrow> holiday_info_loop cal c [];
                       total_first \<leftarrow> py_min (sort (c @ dates));
                       total_last \<leftarrow> py_max (sort (c @ dates));
                       Some (Some \<lparr>sg_start_date = total_first,
                                   sg_end_date = total_last,
                                   leaves_used = used,
                                   total_days_off = int (length (sort (c @ dates))),
                                   sg_value = v,
                                   leave_dates = sort dates,
                                   holiday_info = info\<rparr>)
                     }
                   else Some None)
             else Some None)
       else Some None)"
    unfolding process_cluster_def by (simp only: cs ce a b bind.bind_lunit)
  also have "\<exists>r. \<dots> = Some r"
  proof -
    obtain used dates where tl:
      "take_leaves (min rem (int (length before + length after))) (sort (before @ after)) (0, [])
         = (used, dates)"
      by fastforce
    from pm obtain m1 m2 where m: "py_min (sort (c @ dates)) = Some m1"
      "py_max (sort (c @ dates)) = Some m2" by blast
    show ?thesis
      unfolding Let_def by (simp only: tl prod.case info m bind.bind_lunit) auto
  qed
  finally show ?thesis .
qed

lemma process_cluster_reject:
  assumes "c \<noteq> []"
    and b: "scan_before cal rem (Min (set c) - 1) [] = Some before"
    and a: "scan_after cal rem (Max (set c) + 1) [] = Some after"
    and v: "(of_int (int (length c) + min rem (int (length before + length after))) :: rat)
              / of_int (min rem (int (length before + length after))) < 3 / 2"
  shows "process_cluster cal c rem = Some None"
proof -
  have cs: "py_min c = Some (Min (set c))" and ce: "py_max c = Some (Max (set c))"
    using assms(1) by (simp_all add: py_min_Some py_max_Some)
  have "process_cluster cal c rem =
      (if before \<noteq> [] \<or> after \<noteq> [] then
         (let leaves_to_use = min rem (int (length before + length after));
              days_off = int (length c) + leaves_to_use;
              v = (if leaves_to_use > 0 then of_int days_off / of_int leaves_to_use else 0)
          in if v \<ge> 3 / 2 then
               (let all_potential = sort (before @ after);
                    (used, dates) = take_leaves leaves_to_use all_potential (0, [])
                in if dates \<noteq> [] then
                     do {
                       info \<leftarrow> holiday_info_loop cal c [];
                       total_first \<leftarrow> py_min (sort (c @ dates));
                       total_last \<leftarrow> py_max (sort (c @ dates));
                       Some (Some \<lparr>sg_start_date = total_first,
                                   sg_end_date = total_last,
                                   leaves_used = used,
                                   total_days_off = int (length (sort (c @ dates))),
                                   sg_value = v,
                                   leave_dates = sort dates,
                                   holiday_info = info\<rparr>)
                     }
                   else Some None)
             else Some None)
       else Some None)"
    unfolding process_cluster_def by (simp only: cs ce a b bind.bind_lunit)
  also have "\<dots> = Some None"
  proof -
    define k where "k = min rem (int (length before + length after))"
    have nv: "\<not> (3 / 2 \<le> (if 0 < k then (of_int (int (length c) + k) :: rat) / of_int k else 0))"
      using v by (simp add: k_def)
    show ?thesis
      unfolding Let_def k_def [symmetric] by (simp only: nv if_False if_cancel)
  qed
  finally show ?thesis .
qed

subsection \<open>The loop over the clusters\<close>

lemma optimize_loop_stop:
  "rem \<le> 0 \<Longrightarrow> optimize_loop cal cls rem acc = Some acc"
  by (cases cls) simp_all

lemma optimize_loop_props:
  "optimize_loop cal cls rem acc = Some out \<Longrightarrow>
   \<exists>new. out = acc @ new \<and>
     (\<forall>s \<in> set new. \<exists>c \<in> set cls. \<exists>r. 0 < r \<and> r \<le> rem \<and> process_cluster cal c r = Some (Some s)) \<and>
     sum_list (map leaves_used new) \<le> max 0 rem"
proof (induction cls arbitrary: rem acc)
  case Nil
  then show ?case by simp
next
  case (Cons c cls)
  show ?case
  proof (cases "rem \<le> 0")
    case True
    with Cons.prems show ?thesis by simp
  next
    case False
    then have pos: "0 < rem" by simp
    from Cons.prems False obtain r where r: "process_cluster cal c rem = Some r"
      by (auto split: option.splits)
    show ?thesis
    proof (cases r)
      case None
      with Cons.prems False r have "optimize_loop cal cls rem acc = Some out" by simp
      from Cons.IH [OF this] show ?thesis by auto
    next
      case (Some s)
      with Cons.prems False r
      have run: "optimize_loop cal cls (rem - leaves_used s) (acc @ [s]) = Some out" by simp
      from process_cluster_Some [OF r [unfolded Some]]
      have k: "0 < leaves_used s" "leaves_used s \<le> rem" by auto
      from Cons.IH [OF run] obtain new where new: "out = (acc @ [s]) @ new"
        "\<forall>s' \<in> set new. \<exists>c \<in> set cls. \<exists>r. 0 < r \<and> r \<le> rem - leaves_used s \<and>
            process_cluster cal c r = Some (Some s')"
        "sum_list (map leaves_used new) \<le> max 0 (rem - leaves_used s)"
        by blast
      have 1: "out = acc @ (s # new)" using new(1) by simp
      have 2: "\<forall>s' \<in> set (s # new). \<exists>c' \<in> set (c # cls). \<exists>r. 0 < r \<and> r \<le> rem \<and>
                 process_cluster cal c' r = Some (Some s')"
      proof
        fix s' assume "s' \<in> set (s # new)"
        then consider "s' = s" | "s' \<in> set new" by auto
        then show "\<exists>c' \<in> set (c # cls). \<exists>r. 0 < r \<and> r \<le> rem \<and>
                 process_cluster cal c' r = Some (Some s')"
        proof cases
          case 1
          then show ?thesis using r Some pos by auto
        next
          case 2
          with new(2) obtain c' r' where "c' \<in> set cls" "0 < r'" "r' \<le> rem - leaves_used s"
            "process_cluster cal c' r' = Some (Some s')" by blast
          with k show ?thesis by (intro bexI [of _ c'] exI [of _ r']) auto
        qed
      qed
      have 3: "sum_list (map leaves_used (s # new)) \<le> max 0 rem"
        using new(3) k by simp
      from 1 2 3 show ?thesis by blast
    qed
  qed
qed

lemma optimize_loop_total:
  assumes tot: "\<forall>d. start_date \<le> d \<and> d \<le> end_date \<longrightarrow> cal d \<noteq> None"
  shows "\<forall>c \<in> set cls. cluster_ok cal c \<Longrightarrow> \<exists>out. optimize_loop cal cls rem acc = Some out"
proof (induction cls arbitrary: rem acc)
  case Nil
  then show ?case by simp
next
  case (Cons c cls)
  from process_cluster_total [OF tot, of c rem] Cons.prems
  obtain r where r: "process_cluster cal c rem = Some r" by auto
  from Cons.prems have "\<forall>c \<in> set cls. cluster_ok cal c" by simp
  note IH = Cons.IH [OF this]
  show ?case
  proof (cases "rem \<le> 0")
    case True then show ?thesis by simp
  next
    case False
    show ?thesis
    proof (cases r)
      case None
      with r False IH [of rem acc] show ?thesis by simp
    next
      case (Some s)
      with r False IH [of "rem - leaves_used s" "acc @ [s]"] show ?thesis by simp
    qed
  qed
qed

subsection \<open>The planner on the sample sheet\<close>

lemma sample_city_holidays:
  "get_holidays_for_city sample_holidays ''Mumbai'' = [(226, ''Independence Day'')]"
  by code_simp

lemma clusters_loop_calendar:
  "clusters_loop (build_calendar hs) cur cc cls =
     (if cur \<le> end_date then
        (if start_date \<le> cur then
           (case cluster_step (classify (map fst hs) (holiday_desc_of hs) cur) cur cc cls of
              (cc2, cls2) \<Rightarrow> clusters_loop (build_calendar hs) (cur + 1) cc2 cls2)
         else None)
      else Some (cls, cc))"
  by (subst clusters_loop.simps) (simp add: build_calendar_lookup)

lemma sample_clusters:
  "find_clusters (build_calendar [(226, ''Independence Day'')]) = Some
  [[3, 4], [10, 11], [17, 18], [24, 25], [31, 32], [38, 39], [45, 46],
   [52, 53], [59, 60], [66, 67], [73, 74], [80, 81], [87, 88], [94, 95],
   [101, 102], [108, 109], [115, 116], [122, 123], [129, 130], [136, 137],
   [143, 144], [150], [151], [157, 158], [164, 165], [171, 172], [178, 179],
   [185, 186], [192, 193], [199, 200], [206, 207], [213, 214], [220, 221],
   [226, 227, 228], [234, 235], [241, 242], [248, 249], [255, 256],
   [262, 263], [269, 270], [276, 277], [283, 284], [290, 291], [297, 298],
   [304, 305], [311, 312], [318, 319], [325, 326], [332, 333], [339, 340],
   [346, 347], [353, 354], [360, 361]]"
  by (simp add: find_clusters_def clusters_loop_calendar cluster_step_def classify_def
        is_weekend_def weekday_def start_date_def end_date_def day_def month_day_def month_lengths_def)


lemma sample_sorted:
  "sort_reverse length
  ([[3, 4], [10, 11], [17, 18], [24, 25], [31, 32], [38, 39], [45, 46], [52, 53], [59, 60], [66, 67], [73, 74], [80, 81], [87, 88], [94, 95], [101, 102], [108, 109], [115, 116], [122, 123], [129, 130], [136, 137], [143, 144], [150], [151], [157, 158], [164, 165], [171, 172], [178, 179], [185, 186], [192, 193], [199, 200], [206, 207], [213, 214], [220, 221], [226, 227, 228], [234, 235], [241, 242], [248, 249], [255, 256], [262, 263], [269, 270], [276, 277], [283, 284], [290, 291], [297, 298], [304, 305], [311, 312], [318, 319], [325, 326], [332, 333], [339, 340], [346, 347], [353, 354], [360, 361]] :: int list list) =
  [[226, 227, 228], [3, 4], [10, 11], [17, 18], [24, 25], [31, 32], [38, 39], [45, 46], [52, 53], [59, 60], [66, 67], [73, 74], [80, 81], [87, 88], [94, 95], [101, 102], [108, 109], [115, 116], [122, 123], [129, 130], [136, 137], [143, 144], [157, 158], [164, 165], [171, 172], [178, 179], [185, 186], [192, 193], [199, 200], [206, 207], [213, 214], [220, 221], [234, 235], [241, 242], [248, 249], [255, 256], [262, 263], [269, 270], [276, 277], [283, 284], [290, 291], [297, 298], [304, 305], [311, 312], [318, 319], [325, 326], [332, 333], [339, 340], [346, 347], [353, 354], [360, 361], [150], [151]]"
  by code_simp

lemma scan_before_calendar:
  "scan_before (build_calendar hs) rem chk acc =
     (if rem > 0 \<and> chk \<ge> start_date then
        (if chk \<le> end_date then
           if dtype (classify (map fst hs) (holiday_desc_of hs) chk) = Workday then
             (if length (acc @ [chk]) \<ge> 2 then Some (acc @ [chk])
              else scan_before (build_calendar hs) rem (chk - 1) (acc @ [chk]))
           else Some acc
         else None)
      else Some acc)"
  by (subst scan_before.simps) (simp add: build_calendar_lookup)

lemma scan_after_calendar:
  "scan_after (build_calendar hs) rem chk acc =
     (if rem > 0 \<and> chk \<le> end_date then
        (if start_date \<le> chk then
           if dtype (classify (map fst hs) (holiday_desc_of hs) chk) = Workday then
             (if length (acc @ [chk]) \<ge> 2 then Some (acc @ [chk])
              else scan_after (build_calendar hs) rem (chk + 1) (acc @ [chk]))
           else Some acc
         else None)
      else Some acc)"
  by (subst scan_after.simps) (simp add: build_calendar_lookup)

lemma sample_produce:
  "produce_suggestions sample_holidays ''Mumbai'' 10 = Some
     [\<lparr>sg_start_date = 224, sg_end_date = 230, leaves_used = 4,
        total_days_off = 7, sg_value = 7 / 4,
        leave_dates = [224, 225, 229, 230],
        holiday_info = [''15-Aug: Independence Day'']\<rparr>,
      \<lparr>sg_start_date = 1, sg_end_date = 6, leaves_used = 4, total_days_off = 6,
        sg_value = 3 / 2, leave_dates = [1, 2, 5, 6], holiday_info = []\<rparr>,
      \<lparr>sg_start_date = 8, sg_end_date = 11, leaves_used = 2,
        total_days_off = 4, sg_value = 2, leave_dates = [8, 9],
        holiday_info = []\<rparr>]"
  unfolding produce_suggestions_def sample_city_holidays Let_def
  by (simp add: sample_clusters sample_sorted process_cluster_def scan_before_calendar
        scan_after_calendar build_calendar_lookup classify_def is_weekend_def weekday_def
        start_date_def end_date_def holiday_desc_of_def strftime_d_b_def two_digits_def
        digit_char_def month_abbr_def day_def month_def month_day_def month_lengths_def)

subsection \<open>Sorting\<close>

lemma sample_process:
  "process_cluster (build_calendar [(226, ''Independence Day'')]) [226, 227, 228] 10 =
     Some (Some \<lparr>sg_start_date = 224, sg_end_date = 230, leaves_used = 4,
        total_days_off = 7, sg_value = 7 / 4,
        leave_dates = [224, 225, 229, 230],
        holiday_info = [''15-Aug: Independence Day'']\<rparr>)"
  by (simp add: process_cluster_def scan_before_calendar
        scan_after_calendar build_calendar_lookup classify_def is_weekend_def weekday_def
        start_date_def end_date_def holiday_desc_of_def strftime_d_b_def two_digits_def
        digit_char_def month_abbr_def day_def month_def month_day_def month_lengths_def)

lemma sum_list_insort_key:
  "sum_list (map f (insort_key k x xs)) = (f x :: int) + sum_list (map f xs)"
  by (induction xs) auto

lemma sum_list_sort_key: "sum_list (map f (sort_key k xs)) = (sum_list (map f xs) :: int)"
  by (induction xs) (auto simp: sum_list_insort_key)

lemma sort_reverse_sum: "sum_list (map f (sort_reverse k xs)) = (sum_list (map f xs) :: int)"
proof -
  have "sum_list (map f (sort_reverse k xs)) = sum_list (rev (map f (sort_key k (rev xs))))"
    by (simp add: sort_reverse_def rev_map)
  also have "\<dots> = sum_list (map f (sort_key k (rev xs)))" by (rule sum_list_rev)
  also have "\<dots> = sum_list (map f (rev xs))" by (rule sum_list_sort_key)
  also have "\<dots> = sum_list (rev (map f xs))" by (simp add: rev_map)
  also have "\<dots> = sum_list (map f xs)" by (rule sum_list_rev)
  finally show ?thesis .
qed

lemma sort_reverse_set: "set (sort_reverse k xs) = set xs"
  by (simp add: sort_reverse_def)

lemma sort_reverse_length: "length (sort_reverse k xs) = length xs"
  by (simp add: sort_reverse_def)

lemma sort_reverse_sorted: "sorted_wrt (\<lambda>a b. k a \<ge> k b) (sort_reverse k xs)"
proof -
  have "sorted (map k (sort_key k (rev xs)))" by (rule sorted_sort_key)
  then have "sorted_wrt (\<lambda>a b. k a \<le> k b) (sort_key k (rev xs))"
    by (simp add: sorted_wrt_map)
  then show ?thesis
    by (simp add: sort_reverse_def sorted_wrt_rev)
qed

lemma sort_reverse_stable:
  "filter (\<lambda>x. k x = v) (sort_reverse k xs) = filter (\<lambda>x. k x = v) xs"
proof -
  have "filter (\<lambda>x. k x = v) (sort_reverse k xs) = rev (filter (\<lambda>x. k x = v) (sort_key k (rev xs)))"
    by (simp add: sort_reverse_def rev_filter)
  also have "\<dots> = rev (filter (\<lambda>x. k x = v) (rev xs))"
    by (simp only: sort_key_stable)
  also have "\<dots> = filter (\<lambda>x. k x = v) xs"
    by (simp add: rev_filter)
  finally show ?thesis .
qed

subsection \<open>The whole function\<close>

lemma build_calendar_total:
  "\<forall>d. start_date \<le> d \<and> d \<le> end_date \<longrightarrow> build_calendar hs d \<noteq> None"
  by (simp add: build_calendar_lookup)

lemma find_optimal_Some:
  "find_optimal_leave_periods hs city b = Some ss \<longleftrightarrow>
     (\<exists>ps. produce_suggestions hs city b = Some ps \<and> ss = sort_reverse sg_value ps)"
  by (auto simp: find_optimal_leave_periods_def bind_eq_Some_conv)

lemma produce_suggestions_Some:
  assumes "produce_suggestions hs city b = Some ps"
  shows "\<exists>clusters.
           find_clusters (build_calendar (get_holidays_for_city hs city)) = Some clusters \<and>
           optimize_loop (build_calendar (get_holidays_for_city hs city))
             (sort_reverse length clusters) b [] = Some ps"
  using assms by (auto simp: produce_suggestions_def Let_def bind_eq_Some_conv)

lemma produce_suggestions_props:
  assumes "produce_suggestions hs city b = Some ps"
  shows "\<exists>clusters.
           find_clusters (build_calendar (get_holidays_for_city hs city)) = Some clusters \<and>
           (\<forall>s \<in> set ps. \<exists>c \<in> set clusters. \<exists>r. 0 < r \<and> r \<le> b \<and>
              process_cluster (build_calendar (get_holidays_for_city hs city)) c r = Some (Some s))"
    and "sum_list (map leaves_used ps) \<le> max 0 b"
proof -
  from produce_suggestions_Some [OF assms] obtain clusters where
    fc: "find_clusters (build_calendar (get_holidays_for_city hs city)) = Some clusters" and
    ol: "optimize_loop (build_calendar (get_holidays_for_city hs city))
             (sort_reverse length clusters) b [] = Some ps" by blast
  from optimize_loop_props [OF ol] obtain new where new: "ps = [] @ new"
    "\<forall>s \<in> set new. \<exists>c \<in> set (sort_reverse length clusters). \<exists>r. 0 < r \<and> r \<le> b \<and>
        process_cluster (build_calendar (get_holidays_for_city hs city)) c r = Some (Some s)"
    "sum_list (map leaves_used new) \<le> max 0 b" by blast
  from new(1) have eq: "new = ps" by simp
  show "sum_list (map leaves_used ps) \<le> max 0 b" using new(3) eq by simp
  show "\<exists>clusters.
           find_clusters (build_calendar (get_holidays_for_city hs city)) = Some clusters \<and>
           (\<forall>s \<in> set ps. \<exists>c \<in> set clusters. \<exists>r. 0 < r \<and> r \<le> b \<and>
              process_cluster (build_calendar (get_holidays_for_city hs city)) c r = Some (Some s))"
    using fc new(2) unfolding eq sort_reverse_set by blast
qed

lemma produce_suggestions_total: "\<exists>ps. produce_suggestions hs city b = Some ps"
proof -
  let ?cal = "build_calendar (get_holidays_for_city hs city)"
  from find_clusters_total [OF build_calendar_total] obtain clusters where
    fc: "find_clusters ?cal = Some clusters" by blast
  from find_clusters_ok(1) [OF fc] have "\<forall>c \<in> set (sort_reverse length clusters). cluster_ok ?cal c"
    by (simp add: sort_reverse_set list_all_iff)
  from optimize_loop_total [OF build_calendar_total this] obtain out where
    "optimize_loop ?cal (sort_reverse length clusters) b [] = Some out" by blast
  with fc show ?thesis by (simp add: produce_suggestions_def)
qed

lemma find_optimal_total: "\<exists>ss. find_optimal_leave_periods hs city b = Some ss"
  using produce_suggestions_total [of hs city b] by (auto simp: find_optimal_Some)

lemma sample_find_optimal:
  "find_optimal_leave_periods sample_holidays ''Mumbai'' 10 = Some
     [\<lparr>sg_start_date = 8, sg_end_date = 11, leaves_used = 2,
        total_days_off = 4, sg_value = 2, leave_dates = [8, 9],
        holiday_info = []\<rparr>,
      \<lparr>sg_start_date = 224, sg_end_date = 230, leaves_used = 4,
        total_days_off = 7, sg_value = 7 / 4,
        leave_dates = [224, 225, 229, 230],
        holiday_info = [''15-Aug: Independence Day'']\<rparr>,
      \<lparr>sg_start_date = 1, sg_end_date = 6, leaves_used = 4, total_days_off = 6,
        sg_value = 3 / 2, leave_dates = [1, 2, 5, 6], holiday_info = []\<rparr>]"
  by (simp add: find_optimal_leave_periods_def sample_produce sort_reverse_def)

section \<open>Properties of the planner\<close>

text \<open>
  C2.  The leaves spent by the suggestions of one employee never exceed a non-negative initial
  budget; the loop over the clusters adds nothing once no leave remains; with a budget of 0
  the function returns the empty list.
\<close>

theorem budget_invariant:
  "(\<exists>ss. find_optimal_leave_periods hs city b = Some ss \<and>
          (0 \<le> b \<longrightarrow> sum_list (map leaves_used ss) \<le> b)) \<and>
   (rem \<le> 0 \<longrightarrow> optimize_loop cal cls rem acc = Some acc) \<and>
   find_optimal_leave_periods hs city 0 = Some []"
proof (intro conjI)
  from find_optimal_total obtain ss where ss: "find_optimal_leave_periods hs city b = Some ss"
    by blast
  then obtain ps where ps: "produce_suggestions hs city b = Some ps"
    "ss = sort_reverse sg_value ps" by (auto simp: find_optimal_Some)
  have "sum_list (map leaves_used ss) = sum_list (map leaves_used ps)"
    unfolding ps(2) by (rule sort_reverse_sum)
  with produce_suggestions_props(2) [OF ps(1)]
  have "0 \<le> b \<longrightarrow> sum_list (map leaves_used ss) \<le> b" by (auto simp: max_def)
  with ss show "\<exists>ss. find_optimal_leave_periods hs city b = Some ss \<and>
          (0 \<le> b \<longrightarrow> sum_list (map leaves_used ss) \<le> b)" by blast
next
  show "rem \<le> 0 \<longrightarrow> optimize_loop cal cls rem acc = Some acc"
    by (simp add: optimize_loop_stop)
next
  from produce_suggestions_total obtain ps where ps: "produce_suggestions hs city 0 = Some ps"
    by blast
  from produce_suggestions_Some [OF ps] obtain clusters where
    "optimize_loop (build_calendar (get_holidays_for_city hs city))
       (sort_reverse length clusters) 0 [] = Some ps" by blast
  then have "ps = []" by (simp add: optimize_loop_stop)
  with ps show "find_optimal_leave_periods hs city 0 = Some []"
    by (simp add: find_optimal_leave_periods_def sort_reverse_def)
qed

theorem budget_invariant_witness:
  "(\<exists>ss. find_optimal_leave_periods sample_holidays ''Mumbai'' 10 = Some ss \<and>
          length ss = 3 \<and> (0::int) \<le> 10 \<and> sum_list (map leaves_used ss) \<le> 10) \<and>
   ((0::int) \<le> 0 \<and> optimize_loop Map.empty [[3, 4]] 0 [] = Some []) \<and>
   find_optimal_leave_periods sample_holidays ''Mumbai'' 0 = Some []"
  using budget_invariant [of sample_holidays "''Mumbai''" 10 0 Map.empty "[[3, 4]]" "[]"]
  by (simp add: sample_find_optimal)

text \<open>
  C10.  Every suggestion spends between 1 and 4 leaves, as many as it has leave dates, and its
  list of leave dates is not empty.
\<close>

theorem leaves_used_range:
  assumes "find_optimal_leave_periods hs city b = Some ss" and "s \<in> set ss"
  shows "1 \<le> leaves_used s \<and> leaves_used s \<le> 4 \<and> leave_dates s \<noteq> [] \<and>
         leaves_used s = int (length (leave_dates s))"
proof -
  from assms obtain ps where ps: "produce_suggestions hs city b = Some ps" "s \<in> set ps"
    by (auto simp: find_optimal_Some sort_reverse_set)
  from produce_suggestions_props(1) [OF ps(1)] ps(2) obtain c r where
    "process_cluster (build_calendar (get_holidays_for_city hs city)) c r = Some (Some s)"
    by blast
  from process_cluster_Some [OF this] obtain before after k where
    b: "scan_before (build_calendar (get_holidays_for_city hs city)) r (Min (set c) - 1) [] = Some before"
    and a: "scan_after (build_calendar (get_holidays_for_city hs city)) r (Max (set c) + 1) [] = Some after"
    and k: "k = min r (int (length before + length after))" "0 < k" "leaves_used s = k"
    and ld: "leave_dates s = take (nat k) (sort (before @ after))"
    by blast
  from scan_before_length [OF b] scan_after_length [OF a]
  have len: "length before \<le> 2" "length after \<le> 2" by simp_all
  with k have k4: "k \<le> 4" by simp
  have "nat k \<le> length (sort (before @ after))" using k(1) by simp
  then have "length (leave_dates s) = nat k" unfolding ld by simp
  with k k4 show ?thesis by auto
qed

theorem leaves_used_range_witness:
  "find_optimal_leave_periods sample_holidays ''Mumbai'' 10 = Some
     [\<lparr>sg_start_date = 8, sg_end_date = 11, leaves_used = 2,
        total_days_off = 4, sg_value = 2, leave_dates = [8, 9],
        holiday_info = []\<rparr>,
      \<lparr>sg_start_date = 224, sg_end_date = 230, leaves_used = 4,
        total_days_off = 7, sg_value = 7 / 4,
        leave_dates = [224, 225, 229, 230],
        holiday_info = [''15-Aug: Independence Day'']\<rparr>,
      \<lparr>sg_start_date = 1, sg_end_date = 6, leaves_used = 4, total_days_off = 6,
        sg_value = 3 / 2, leave_dates = [1, 2, 5, 6], holiday_info = []\<rparr>] \<and>
   1 \<le> leaves_used \<lparr>sg_start_date = 8, sg_end_date = 11, leaves_used = 2,
        total_days_off = 4, sg_value = 2, leave_dates = [8, 9],
        holiday_info = []\<rparr> \<and>
   leaves_used \<lparr>sg_start_date = 8, sg_end_date = 11, leaves_used = 2,
        total_days_off = 4, sg_value = 2, leave_dates = [8, 9],
        holiday_info = []\<rparr> \<le> 4"
  using leaves_used_range [OF sample_find_optimal,
      of "\<lparr>sg_start_date = 8, sg_end_date = 11, leaves_used = 2,
        total_days_off = 4, sg_value = 2, leave_dates = [8, 9],
        holiday_info = []\<rparr>"]
  by (simp add: sample_find_optimal)

text \<open>
  C9.  The list returned to the caller is the list of the produced suggestions sorted by
  value, best first; suggestions of equal value keep the order of their production.
\<close>

theorem ranking_sorted_stable:
  assumes "find_optimal_leave_periods hs city b = Some ss"
  shows "\<exists>ps. produce_suggestions hs city b = Some ps \<and>
           sorted_wrt (\<lambda>x y. sg_value x \<ge> sg_value y) ss \<and>
           set ss = set ps \<and> length ss = length ps \<and>
           (\<forall>v. filter (\<lambda>s. sg_value s = v) ss = filter (\<lambda>s. sg_value s = v) ps)"
proof -
  from assms obtain ps where ps: "produce_suggestions hs city b = Some ps"
    "ss = sort_reverse sg_value ps" by (auto simp: find_optimal_Some)
  show ?thesis
  proof (intro exI [of _ ps] conjI allI)
    show "produce_suggestions hs city b = Some ps" by (rule ps(1))
    show "sorted_wrt (\<lambda>x y. sg_value x \<ge> sg_value y) ss"
      unfolding ps(2) by (rule sort_reverse_sorted)
    show "set ss = set ps" unfolding ps(2) by (rule sort_reverse_set)
    show "length ss = length ps" unfolding ps(2) by (rule sort_reverse_length)
    show "filter (\<lambda>s. sg_value s = v) ss = filter (\<lambda>s. sg_value s = v) ps" for v
      unfolding ps(2) by (rule sort_reverse_stable)
  qed
qed

theorem ranking_sorted_stable_witness:
  "find_optimal_leave_periods sample_holidays ''Mumbai'' 10 = Some
     [\<lparr>sg_start_date = 8, sg_end_date = 11, leaves_used = 2,
        total_days_off = 4, sg_value = 2, leave_dates = [8, 9],
        holiday_info = []\<rparr>,
      \<lparr>sg_start_date = 224, sg_end_date = 230, leaves_used = 4,
        total_days_off = 7, sg_value = 7 / 4,
        leave_dates = [224, 225, 229, 230],
        holiday_info = [''15-Aug: Independence Day'']\<rparr>,
      \<lparr>sg_start_date = 1, sg_end_date = 6, leaves_used = 4, total_days_off = 6,
        sg_value = 3 / 2, leave_dates = [1, 2, 5, 6], holiday_info = []\<rparr>] \<and>
   sorted_wrt (\<lambda>x y. sg_value x \<ge> sg_value y)
     [\<lparr>sg_start_date = 8, sg_end_date = 11, leaves_used = 2,
        total_days_off = 4, sg_value = 2, leave_dates = [8, 9],
        holiday_info = []\<rparr>,
      \<lparr>sg_start_date = 224, sg_end_date = 230, leaves_used = 4,
        total_days_off = 7, sg_value = 7 / 4,
        leave_dates = [224, 225, 229, 230],
        holiday_info = [''15-Aug: Independence Day'']\<rparr>,
      \<lparr>sg_start_date = 1, sg_end_date = 6, leaves_used = 4, total_days_off = 6,
        sg_value = 3 / 2, leave_dates = [1, 2, 5, 6], holiday_info = []\<rparr>]"
  using ranking_sorted_stable [OF sample_find_optimal]
  by (simp add: sample_find_optimal)

text \<open>
  C3.  Every suggestion has a value of at least 1.5.  A cluster whose value
  \<open>(|cluster| + candidate_count) / candidate_count\<close> is below 1.5 gives no suggestion, and the
  loop goes on to the next cluster with the same leaves and the same suggestions.
\<close>

theorem acceptance_threshold:
  "(find_optimal_leave_periods hs city b = Some ss \<longrightarrow> s \<in> set ss \<longrightarrow> 3 / 2 \<le> sg_value s) \<and>
   (c \<noteq> [] \<longrightarrow> 0 < rem \<longrightarrow>
    scan_before cal rem (Min (set c) - 1) [] = Some before \<longrightarrow>
    scan_after cal rem (Max (set c) + 1) [] = Some after \<longrightarrow>
    (of_int (int (length c) + min rem (int (length before + length after))) :: rat)
       / of_int (min rem (int (length before + length after))) < 3 / 2 \<longrightarrow>
    process_cluster cal c rem = Some None \<and>
    optimize_loop cal (c # cs) rem acc = optimize_loop cal cs rem acc)"
proof (intro conjI impI)
  assume "find_optimal_leave_periods hs city b = Some ss" and "s \<in> set ss"
  then obtain ps where ps: "produce_suggestions hs city b = Some ps" "s \<in> set ps"
    by (auto simp: find_optimal_Some sort_reverse_set)
  from produce_suggestions_props(1) [OF ps(1)] ps(2) obtain c' r where
    "process_cluster (build_calendar (get_holidays_for_city hs city)) c' r = Some (Some s)"
    by blast
  from process_cluster_Some [OF this] show "3 / 2 \<le> sg_value s" by blast
next
  assume h: "c \<noteq> []" "0 < rem"
    "scan_before cal rem (Min (set c) - 1) [] = Some before"
    "scan_after cal rem (Max (set c) + 1) [] = Some after"
    "(of_int (int (length c) + min rem (int (length before + length after))) :: rat)
       / of_int (min rem (int (length before + length after))) < 3 / 2"
  show none: "process_cluster cal c rem = Some None"
    by (rule process_cluster_reject [OF h(1) h(3) h(4) h(5)])
  show "optimize_loop cal (c # cs) rem acc = optimize_loop cal cs rem acc"
    using h(2) none by simp
qed

theorem acceptance_threshold_witness:
  "(find_optimal_leave_periods sample_holidays ''Mumbai'' 10 = Some
     [\<lparr>sg_start_date = 8, sg_end_date = 11, leaves_used = 2,
        total_days_off = 4, sg_value = 2, leave_dates = [8, 9],
        holiday_info = []\<rparr>,
      \<lparr>sg_start_date = 224, sg_end_date = 230, leaves_used = 4,
        total_days_off = 7, sg_value = 7 / 4,
        leave_dates = [224, 225, 229, 230],
        holiday_info = [''15-Aug: Independence Day'']\<rparr>,
      \<lparr>sg_start_date = 1, sg_end_date = 6, leaves_used = 4, total_days_off = 6,
        sg_value = 3 / 2, leave_dates = [1, 2, 5, 6], holiday_info = []\<rparr>] \<and>
    (3::rat) / 2 \<le> 7 / 4) \<and>
   ([273::int] \<noteq> [] \<and> (0::int) < 10 \<and>
    scan_before (build_calendar midweek_holidays) 10 (Min (set [273]) - 1) [] = Some [272, 271] \<and>
    scan_after (build_calendar midweek_holidays) 10 (Max (set [273]) + 1) [] = Some [274, 275] \<and>
    (of_int (int (length [273::int]) + min 10 (int (length [272, 271::int] + length [274, 275::int]))) :: rat)
       / of_int (min 10 (int (length [272, 271::int] + length [274, 275::int]))) < 3 / 2 \<and>
    process_cluster (build_calendar midweek_holidays) [273] 10 = Some None \<and>
    optimize_loop (build_calendar midweek_holidays) [[273], [3, 4]] 10 []
      = optimize_loop (build_calendar midweek_holidays) [[3, 4]] 10 [])"
proof -
  have b: "scan_before (build_calendar midweek_holidays) 10 (Min (set [273]) - 1) [] = Some [272, 271]"
    by (simp add: scan_before_calendar classify_def is_weekend_def weekday_def
          start_date_def end_date_def midweek_holidays_def)
  have a: "scan_after (build_calendar midweek_holidays) 10 (Max (set [273]) + 1) [] = Some [274, 275]"
    by (simp add: scan_after_calendar classify_def is_weekend_def weekday_def
          start_date_def end_date_def midweek_holidays_def)
  show ?thesis
    using acceptance_threshold [of sample_holidays "''Mumbai''" 10
        "[\<lparr>sg_start_date = 8, sg_end_date = 11, leaves_used = 2,
        total_days_off = 4, sg_value = 2, leave_dates = [8, 9],
        holiday_info = []\<rparr>,
      \<lparr>sg_start_date = 224, sg_end_date = 230, leaves_used = 4,
        total_days_off = 7, sg_value = 7 / 4,
        leave_dates = [224, 225, 229, 230],
        holiday_info = [''15-Aug: Independence Day'']\<rparr>,
      \<lparr>sg_start_date = 1, sg_end_date = 6, leaves_used = 4, total_days_off = 6,
        sg_value = 3 / 2, leave_dates = [1, 2, 5, 6], holiday_info = []\<rparr>]"
        "\<lparr>sg_start_date = 224, sg_end_date = 230, leaves_used = 4,
        total_days_off = 7, sg_value = 7 / 4,
        leave_dates = [224, 225, 229, 230],
        holiday_info = [''15-Aug: Independence Day'']\<rparr>"
        "[273]" 10 "build_calendar midweek_holidays" "[272, 271]" "[274, 275]" "[[3, 4]]" "[]"]
      a b
    by (simp add: sample_find_optimal)
qed

subsection \<open>The days of a suggestion\<close>

lemma process_cluster_days:
  assumes ok: "cluster_ok cal c" and pc: "process_cluster cal c r = Some (Some s)"
  shows "distinct (leave_dates s)" "set c \<inter> set (leave_dates s) = {}"
proof -
  note rg = cluster_ok_range [OF ok]
  from process_cluster_Some [OF pc] obtain before after k where
    b: "scan_before cal r (Min (set c) - 1) [] = Some before" and
    a: "scan_after cal r (Max (set c) + 1) [] = Some after" and
    ld: "leave_dates s = take (nat k) (sort (before @ after))"
    by blast
  from scan_before_cases [OF b] have bs: "\<forall>d \<in> set before. d < hd c" "distinct before"
    unfolding rg(6) by auto
  from scan_after_cases [OF a] have as: "\<forall>d \<in> set after. last c < d" "distinct after"
    unfolding rg(7) by auto
  have disj: "set before \<inter> set after = {}" using bs(1) as(1) rg(2) by fastforce
  have "distinct (before @ after)" using bs(2) as(2) disj by simp
  then show "distinct (leave_dates s)" unfolding ld by (simp add: distinct_take)
  have "set (leave_dates s) \<subseteq> set before \<union> set after"
    unfolding ld using set_take_subset [of "nat k" "sort (before @ after)"] by simp
  then show "set c \<inter> set (leave_dates s) = {}"
    unfolding rg(3) using bs(1) as(1) by fastforce
qed

text \<open>
  C1.  For every suggestion, \<open>leaves_used\<close> is the number of its leave dates,
  \<open>total_days_off\<close> is the number of days in the union of its cluster and its leave dates, and
  \<open>value\<close> is the exact quotient of the two.
\<close>

theorem suggestion_consistency:
  assumes "find_optimal_leave_periods hs city b = Some ss" and "s \<in> set ss"
  shows "leaves_used s = int (length (leave_dates s)) \<and>
         (\<exists>clusters c r.
            find_clusters (build_calendar (get_holidays_for_city hs city)) = Some clusters \<and>
            c \<in> set clusters \<and>
            process_cluster (build_calendar (get_holidays_for_city hs city)) c r = Some (Some s) \<and>
            total_days_off s = int (card (set c \<union> set (leave_dates s)))) \<and>
         sg_value s = of_int (total_days_off s) / of_int (leaves_used s)"
proof -
  let ?cal = "build_calendar (get_holidays_for_city hs city)"
  from assms obtain ps where ps: "produce_suggestions hs city b = Some ps" "s \<in> set ps"
    by (auto simp: find_optimal_Some sort_reverse_set)
  from produce_suggestions_props(1) [OF ps(1)] ps(2) obtain clusters c r where
    fc: "find_clusters ?cal = Some clusters" and c: "c \<in> set clusters" and
    pc: "process_cluster ?cal c r = Some (Some s)"
    by blast
  from find_clusters_ok(1) [OF fc] c have ok: "cluster_ok ?cal c" by (simp add: list_all_iff)
  note rg = cluster_ok_range [OF ok]
  from process_cluster_Some [OF pc] obtain before after k where
    k: "k = min r (int (length before + length after))" "0 < k" "leaves_used s = k" and
    ld: "leave_dates s = take (nat k) (sort (before @ after))" and
    td: "total_days_off s = int (length c) + k" and
    v: "sg_value s = of_int (int (length c) + k) / of_int k"
    by blast
  have "nat k \<le> length (sort (before @ after))" using k(1) by simp
  then have len: "length (leave_dates s) = nat k" unfolding ld by simp
  have used: "leaves_used s = int (length (leave_dates s))" using len k by simp
  note days = process_cluster_days [OF ok pc]
  have "card (set c \<union> set (leave_dates s)) = card (set c) + card (set (leave_dates s))"
    using days(2) by (simp add: card_Un_disjoint)
  also have "\<dots> = length c + length (leave_dates s)"
    using rg(4) days(1) by (simp add: distinct_card)
  finally have card: "total_days_off s = int (card (set c \<union> set (leave_dates s)))"
    using td len k(2) by simp
  have val: "sg_value s = of_int (total_days_off s) / of_int (leaves_used s)"
    using v td k(3) by simp
  from used fc c pc card val show ?thesis by blast
qed

theorem suggestion_consistency_witness:
  "find_optimal_leave_periods sample_holidays ''Mumbai'' 10 = Some
     [\<lparr>sg_start_date = 8, sg_end_date = 11, leaves_used = 2,
        total_days_off = 4, sg_value = 2, leave_dates = [8, 9],
        holiday_info = []\<rparr>,
      \<lparr>sg_start_date = 224, sg_end_date = 230, leaves_used = 4,
        total_days_off = 7, sg_value = 7 / 4,
        leave_dates = [224, 225, 229, 230],
        holiday_info = [''15-Aug: Independence Day'']\<rparr>,
      \<lparr>sg_start_date = 1, sg_end_date = 6, leaves_used = 4, total_days_off = 6,
        sg_value = 3 / 2, leave_dates = [1, 2, 5, 6], holiday_info = []\<rparr>] \<and>
   (\<exists>clusters c r.
      find_clusters (build_calendar (get_holidays_for_city sample_holidays ''Mumbai'')) = Some clusters \<and>
      c \<in> set clusters \<and>
      process_cluster (build_calendar (get_holidays_for_city sample_holidays ''Mumbai'')) c r =
        Some (Some \<lparr>sg_start_date = 224, sg_end_date = 230, leaves_used = 4,
        total_days_off = 7, sg_value = 7 / 4,
        leave_dates = [224, 225, 229, 230],
        holiday_info = [''15-Aug: Independence Day'']\<rparr>) \<and>
      (7::int) = int (card (set c \<union> set [224, 225, 229, 230])))"
  using suggestion_consistency [OF sample_find_optimal,
      of "\<lparr>sg_start_date = 224, sg_end_date = 230, leaves_used = 4,
        total_days_off = 7, sg_value = 7 / 4,
        leave_dates = [224, 225, 229, 230],
        holiday_info = [''15-Aug: Independence Day'']\<rparr>"]
  by (simp add: sample_find_optimal)

text \<open>
  C8.  For a cluster processed with leaves remaining, the candidates before it are at most two
  consecutive workdays that end on the day before its first date and are not earlier than
  1 January; the candidates after it are at most two consecutive workdays that start on the day
  after its last date and are not later than 31 December; an accepted cluster gets as leave
  dates the first \<open>min(remaining, |before| + |after|)\<close> dates of the sorted candidates.
\<close>

theorem bridge_candidates:
  assumes "scan_before cal rem (Min (set c) - 1) [] = Some before"
    and "scan_after cal rem (Max (set c) + 1) [] = Some after"
  shows "length before \<le> 2 \<and> length after \<le> 2 \<and>
         before = map (\<lambda>i. Min (set c) - 1 - int i) [0..<length before] \<and>
         after = map (\<lambda>i. Max (set c) + 1 + int i) [0..<length after] \<and>
         (\<forall>d \<in> set before. start_date \<le> d \<and> is_workday cal d) \<and>
         (\<forall>d \<in> set after. d \<le> end_date \<and> is_workday cal d) \<and>
         (\<forall>s. process_cluster cal c rem = Some (Some s) \<longrightarrow>
            leave_dates s =
              take (nat (min rem (int (length before + length after)))) (sort (before @ after)))"
proof (intro conjI allI impI)
  note bc = scan_before_cases [OF assms(1)]
  note ac = scan_after_cases [OF assms(2)]
  show "length before \<le> 2" using bc by auto
  show "length after \<le> 2" using ac by auto
  show "before = map (\<lambda>i. Min (set c) - 1 - int i) [0..<length before]"
    using bc by auto
  show "after = map (\<lambda>i. Max (set c) + 1 + int i) [0..<length after]"
    using ac by auto
  show "\<forall>d \<in> set before. start_date \<le> d \<and> is_workday cal d" using bc by auto
  show "\<forall>d \<in> set after. d \<le> end_date \<and> is_workday cal d" using ac by auto
next
  fix s assume "process_cluster cal c rem = Some (Some s)"
  from process_cluster_Some [OF this] assms
  show "leave_dates s =
          take (nat (min rem (int (length before + length after)))) (sort (before @ after))"
    by auto
qed

theorem bridge_candidates_witness:
  "scan_before (build_calendar [(226, ''Independence Day'')]) 10 (Min (set [226, 227, 228]) - 1) []
     = Some [225, 224] \<and>
   scan_after (build_calendar [(226, ''Independence Day'')]) 10 (Max (set [226, 227, 228]) + 1) []
     = Some [229, 230] \<and>
   start_date \<le> 224 \<and>
   is_workday (build_calendar [(226, ''Independence Day'')]) 224 \<and>
   is_workday (build_calendar [(226, ''Independence Day'')]) 225 \<and>
   230 \<le> end_date \<and>
   is_workday (build_calendar [(226, ''Independence Day'')]) 229 \<and>
   is_workday (build_calendar [(226, ''Independence Day'')]) 230 \<and>
   (\<exists>s. process_cluster (build_calendar [(226, ''Independence Day'')]) [226, 227, 228] 10
          = Some (Some s) \<and>
        leave_dates s = [224, 225, 229, 230])"
proof -
  have b: "scan_before (build_calendar [(226, ''Independence Day'')]) 10 (Min (set [226, 227, 228]) - 1) []
     = Some [225, 224]"
    by (simp add: scan_before_calendar classify_def is_weekend_def weekday_def
          start_date_def end_date_def)
  have a: "scan_after (build_calendar [(226, ''Independence Day'')]) 10 (Max (set [226, 227, 228]) + 1) []
     = Some [229, 230]"
    by (simp add: scan_after_calendar classify_def is_weekend_def weekday_def
          start_date_def end_date_def)
  note t = bridge_candidates [OF b a]
  have bw: "\<forall>d \<in> set [225, 224]. start_date \<le> d \<and>
              is_workday (build_calendar [(226, ''Independence Day'')]) d"
    using t by (elim conjE)
  have aw: "\<forall>d \<in> set [229, 230]. d \<le> end_date \<and>
              is_workday (build_calendar [(226, ''Independence Day'')]) d"
    using t by (elim conjE)
  have ld: "\<forall>s. process_cluster (build_calendar [(226, ''Independence Day'')]) [226, 227, 228] 10
              = Some (Some s) \<longrightarrow>
            leave_dates s =
              take (nat (min 10 (int (length [225, 224 :: int] + length [229, 230 :: int]))))
                (sort ([225, 224] @ [229, 230]))"
    using t by (elim conjE)
  have "\<exists>s. process_cluster (build_calendar [(226, ''Independence Day'')]) [226, 227, 228] 10
          = Some (Some s)"
    by (simp add: sample_process)
  then obtain s where s: "process_cluster (build_calendar [(226, ''Independence Day'')])
      [226, 227, 228] 10 = Some (Some s)" by blast
  with ld have "leave_dates s = [224, 225, 229, 230]" by simp
  with s have ex: "\<exists>s. process_cluster (build_calendar [(226, ''Independence Day'')])
      [226, 227, 228] 10 = Some (Some s) \<and> leave_dates s = [224, 225, 229, 230]" by blast
  have w: "start_date \<le> 224"
    "is_workday (build_calendar [(226, ''Independence Day'')]) 224"
    "is_workday (build_calendar [(226, ''Independence Day'')]) 225"
    "230 \<le> end_date"
    "is_workday (build_calendar [(226, ''Independence Day'')]) 229"
    "is_workday (build_calendar [(226, ''Independence Day'')]) 230"
    using bw aw by simp_all
  from b a w ex show ?thesis by (intro conjI)
qed

subsection \<open>Clusters in plain terms\<close>

lemma cluster_ok_nth:
  assumes ok: "cluster_ok cal c" and i: "i < length c"
  shows "c ! i = hd c + int i"
proof -
  note rg = cluster_ok_range [OF ok]
  from ok have eq: "c = [hd c..last c]" unfolding cluster_ok_def by blast
  have "hd c + int i \<le> last c" using i rg(12) by linarith
  then have "[hd c..last c] ! i = hd c + int i" by (rule nth_upto)
  then show ?thesis using eq by metis
qed

lemma chronological_nth:
  assumes ch: "chronological clusters" and ok: "list_all (cluster_ok cal) clusters"
    and ij: "i < j" "j < length clusters"
  shows "\<forall>x \<in> set (clusters ! i). \<forall>y \<in> set (clusters ! j). x < y"
proof -
  from ch ij have lt: "last (clusters ! i) < hd (clusters ! j)"
    unfolding chronological_def sorted_wrt_iff_nth_less by blast
  have oki: "cluster_ok cal (clusters ! i)" and okj: "cluster_ok cal (clusters ! j)"
    using ok ij by (simp_all add: list_all_length)
  note ri = cluster_ok_range [OF oki] and rj = cluster_ok_range [OF okj]
  show ?thesis
  proof (intro ballI)
    fix x y assume "x \<in> set (clusters ! i)" "y \<in> set (clusters ! j)"
    then have "x \<le> last (clusters ! i)" "hd (clusters ! j) \<le> y"
      unfolding ri(3) rj(3) by simp_all
    with lt show "x < y" by linarith
  qed
qed

text \<open>
  C5.  Every cluster found is a non-empty run of consecutive dates of the year, in ascending
  order, all of them holidays or weekend days of one calendar month; the clusters come in
  chronological order, every date of an earlier cluster before every date of a later one, so
  that they are pairwise disjoint.  The search returns for every calendar defined on the year.
\<close>

theorem clusters_well_formed:
  "(find_clusters cal = Some clusters \<longrightarrow>
      (\<forall>c \<in> set clusters.
          c \<noteq> [] \<and> (\<forall>d \<in> set c. off_day cal d) \<and>
          (\<forall>i. Suc i < length c \<longrightarrow> c ! Suc i = c ! i + 1) \<and>
          sorted c \<and> distinct c \<and>
          (\<forall>x \<in> set c. \<forall>y \<in> set c. month x = month y) \<and>
          set c \<subseteq> {start_date..end_date}) \<and>
      (\<forall>i j. i < j \<longrightarrow> j < length clusters \<longrightarrow>
          (\<forall>x \<in> set (clusters ! i). \<forall>y \<in> set (clusters ! j). x < y) \<and>
          set (clusters ! i) \<inter> set (clusters ! j) = {})) \<and>
   ((\<forall>d. start_date \<le> d \<and> d \<le> end_date \<longrightarrow> cal d \<noteq> None) \<longrightarrow>
      (\<exists>found. find_clusters cal = Some found))"
proof -
  have A: "c \<noteq> [] \<and> (\<forall>d \<in> set c. off_day cal d) \<and>
          (\<forall>i. Suc i < length c \<longrightarrow> c ! Suc i = c ! i + 1) \<and>
          sorted c \<and> distinct c \<and>
          (\<forall>x \<in> set c. \<forall>y \<in> set c. month x = month y) \<and>
          set c \<subseteq> {start_date..end_date}"
    if fc: "find_clusters cal = Some clusters" and c: "c \<in> set clusters" for c
  proof -
    from find_clusters_ok(1) [OF fc] c have cok: "cluster_ok cal c" by (simp add: list_all_iff)
    note rg = cluster_ok_range [OF cok]
    have 1: "set c \<subseteq> {start_date..end_date}" unfolding rg(3) using rg(8,9) by auto
    have 2: "\<forall>x \<in> set c. \<forall>y \<in> set c. month x = month y"
      using rg(11) by simp
    have 3: "\<forall>i. Suc i < length c \<longrightarrow> c ! Suc i = c ! i + 1"
    proof (intro allI impI)
      fix i assume i: "Suc i < length c"
      have "c ! Suc i = hd c + int (Suc i)" using cok i by (rule cluster_ok_nth)
      moreover have "c ! i = hd c + int i" using cok i by (intro cluster_ok_nth) simp_all
      ultimately show "c ! Suc i = c ! i + 1" by simp
    qed
    from rg(1) rg(10) 3 rg(5) rg(4) 2 1 show ?thesis by blast
  qed
  have B: "(\<forall>x \<in> set (clusters ! i). \<forall>y \<in> set (clusters ! j). x < y) \<and>
          set (clusters ! i) \<inter> set (clusters ! j) = {}"
    if fc: "find_clusters cal = Some clusters" and ij: "i < j" "j < length clusters" for i j
  proof -
    note ok = find_clusters_ok [OF fc]
    note lt = chronological_nth [OF ok(2) ok(1) ij]
    have "set (clusters ! i) \<inter> set (clusters ! j) = {}" using lt by fastforce
    with lt show ?thesis by blast
  qed
  have C: "\<exists>found. find_clusters cal = Some found"
    if "\<forall>d. start_date \<le> d \<and> d \<le> end_date \<longrightarrow> cal d \<noteq> None"
    using that by (rule find_clusters_total)
  from A B C show ?thesis by blast
qed

theorem clusters_well_formed_witness:
  "find_clusters (build_calendar [(226, ''Independence Day'')]) = Some
  [[3, 4], [10, 11], [17, 18], [24, 25], [31, 32], [38, 39], [45, 46],
   [52, 53], [59, 60], [66, 67], [73, 74], [80, 81], [87, 88], [94, 95],
   [101, 102], [108, 109], [115, 116], [122, 123], [129, 130], [136, 137],
   [143, 144], [150], [151], [157, 158], [164, 165], [171, 172], [178, 179],
   [185, 186], [192, 193], [199, 200], [206, 207], [213, 214], [220, 221],
   [226, 227, 228], [234, 235], [241, 242], [248, 249], [255, 256],
   [262, 263], [269, 270], [276, 277], [283, 284], [290, 291], [297, 298],
   [304, 305], [311, 312], [318, 319], [325, 326], [332, 333], [339, 340],
   [346, 347], [353, 354], [360, 361]] \<and>
   off_day (build_calendar [(226, ''Independence Day'')]) 226 \<and>
   off_day (build_calendar [(226, ''Independence Day'')]) 227 \<and>
   off_day (build_calendar [(226, ''Independence Day'')]) 228 \<and>
   month 226 = month 228 \<and>
   (\<exists>found. find_clusters (build_calendar [(226, ''Independence Day'')]) = Some found)"
proof -
  note w = clusters_well_formed [THEN conjunct1, THEN mp, OF sample_clusters, THEN conjunct1]
  have m: "[226, 227, 228] \<in> set
  [[3, 4], [10, 11], [17, 18], [24, 25], [31, 32], [38, 39], [45, 46],
   [52, 53], [59, 60], [66, 67], [73, 74], [80, 81], [87, 88], [94, 95],
   [101, 102], [108, 109], [115, 116], [122, 123], [129, 130], [136, 137],
   [143, 144], [150], [151], [157, 158], [164, 165], [171, 172], [178, 179],
   [185, 186], [192, 193], [199, 200], [206, 207], [213, 214], [220, 221],
   [226, 227, 228], [234, 235], [241, 242], [248, 249], [255, 256],
   [262, 263], [269, 270], [276, 277], [283, 284], [290, 291], [297, 298],
   [304, 305], [311, 312], [318, 319], [325, 326], [332, 333], [339, 340],
   [346, 347], [353, 354], [360, 361 :: int]]"
    by simp
  note w1 = bspec [OF w m]
  have off: "\<forall>d \<in> set [226, 227, 228]. off_day (build_calendar [(226, ''Independence Day'')]) d"
    using w1 by (elim conjE)
  have mon: "\<forall>x \<in> set [226, 227, 228]. \<forall>y \<in> set [226, 227, 228]. month x = month y"
    using w1 by (elim conjE)
  have tot: "\<forall>d. start_date \<le> d \<and> d \<le> end_date \<longrightarrow>
      build_calendar [(226, ''Independence Day'')] d \<noteq> None"
    by (rule build_calendar_total)
  have ex: "\<exists>found. find_clusters (build_calendar [(226, ''Independence Day'')]) = Some found"
    using clusters_well_formed [THEN conjunct2, THEN mp, OF tot] .
  have i1: "(226 :: int) \<in> set [226, 227, 228]" by simp
  have i2: "(227 :: int) \<in> set [226, 227, 228]" by simp
  have i3: "(228 :: int) \<in> set [226, 227, 228]" by simp
  note o1 = bspec [OF off i1]
  note o2 = bspec [OF off i2]
  note o3 = bspec [OF off i3]
  note mm = bspec [OF bspec [OF mon i1] i3]
  show ?thesis
    by (rule conjI [OF sample_clusters conjI [OF o1 conjI [OF o2 conjI [OF o3 conjI [OF mm ex]]]]])
qed

subsection \<open>Month and day of a date, and back\<close>

lemma sum_list_take_nonneg:
  "\<forall>l \<in> set ls. 0 < l \<Longrightarrow> 0 \<le> sum_list (take k ls :: int list)"
  by (rule sum_list_nonneg) (force dest: in_set_takeD intro: less_imp_le)

lemma month_day_from_date:
  "\<forall>l \<in> set ls. 0 < l \<Longrightarrow> k < length ls \<Longrightarrow> 1 \<le> dd \<Longrightarrow> dd \<le> ls ! k \<Longrightarrow>
   month_day_from ls m (sum_list (take k ls) + dd - 1) = (m + int k, dd)"
proof (induction ls arbitrary: k m)
  case Nil
  then show ?case by simp
next
  case (Cons l ls)
  show ?case
  proof (cases k)
    case 0
    with Cons.prems show ?thesis by simp
  next
    case (Suc k')
    have pos: "\<forall>l \<in> set ls. 0 < l" using Cons.prems(1) by simp
    have nn: "0 \<le> sum_list (take k' ls)" using pos by (rule sum_list_take_nonneg)
    have k': "k' < length ls" "dd \<le> ls ! k'" using Cons.prems Suc by simp_all
    have ge: "\<not> l + sum_list (take k' ls) + dd - 1 < l" using nn Cons.prems(3) by simp
    have "month_day_from (l # ls) m (sum_list (take k (l # ls)) + dd - 1)
            = month_day_from ls (m + 1) (sum_list (take k' ls) + dd - 1)"
      using ge Suc by (simp add: algebra_simps)
    also have "\<dots> = (m + 1 + int k', dd)"
      by (rule Cons.IH [OF pos k'(1) Cons.prems(3) k'(2)])
    finally show ?thesis using Suc by simp
  qed
qed

lemma month_day_from_inv:
  "\<forall>l \<in> set ls. 0 < l \<Longrightarrow> 0 \<le> n \<Longrightarrow> n < sum_list ls \<Longrightarrow>
   (case month_day_from ls m n of (m', d') \<Rightarrow>
      0 \<le> m' - m \<and> nat (m' - m) < length ls \<and>
      sum_list (take (nat (m' - m)) ls) + d' - 1 = n \<and> 1 \<le> d' \<and> d' \<le> ls ! nat (m' - m))"
proof (induction ls arbitrary: m n)
  case Nil
  then show ?case by simp
next
  case (Cons l ls)
  show ?case
  proof (cases "n < l")
    case True
    with Cons.prems show ?thesis by simp
  next
    case False
    have pos: "\<forall>l \<in> set ls. 0 < l" using Cons.prems(1) by simp
    have n': "0 \<le> n - l" "n - l < sum_list ls" using False Cons.prems by simp_all
    obtain m' d' where md: "month_day_from ls (m + 1) (n - l) = (m', d')"
      by (cases "month_day_from ls (m + 1) (n - l)")
    from Cons.IH [OF pos n', of "m + 1"] md
    have ih: "0 \<le> m' - (m + 1)" "nat (m' - (m + 1)) < length ls"
      "sum_list (take (nat (m' - (m + 1))) ls) + d' - 1 = n - l" "1 \<le> d'"
      "d' \<le> ls ! nat (m' - (m + 1))" by simp_all
    have nat: "nat (m' - m) = Suc (nat (m' - (m + 1)))" using ih(1) by simp
    have "month_day_from (l # ls) m n = (m', d')" using False md by simp
    moreover have "0 \<le> m' - m" using ih(1) by simp
    moreover have "nat (m' - m) < length (l # ls)" using ih(2) nat by simp
    moreover have "sum_list (take (nat (m' - m)) (l # ls)) + d' - 1 = n"
      using ih(3) nat by simp
    moreover have "d' \<le> (l # ls) ! nat (m' - m)" using ih(5) nat by simp
    ultimately show ?thesis using ih(4) by simp
  qed
qed

lemma sum_month_lengths: "sum_list month_lengths = 365"
  by (simp add: month_lengths_def)

lemma length_month_lengths: "length month_lengths = 12"
  by (simp add: month_lengths_def)

lemma date_of_month_day_inverse:
  assumes "start_date \<le> d" "d \<le> end_date"
  shows "date_of_month_day (month d) (day d) = d"
    and "1 \<le> month d" "month d \<le> 12" "1 \<le> day d"
    and "day d \<le> month_lengths ! nat (month d - 1)"
proof -
  from assms have d: "0 \<le> d" "d < sum_list month_lengths" "d mod 365 = d"
    by (simp_all add: start_date_def end_date_def sum_month_lengths)
  obtain m' d' where md: "month_day_from month_lengths 1 d = (m', d')"
    by (cases "month_day_from month_lengths 1 d")
  then have m: "month d = m'" "day d = d'"
    by (simp_all add: month_def day_def month_day_def d(3))
  from month_day_from_inv [OF month_lengths_pos d(1,2), of 1] md
  have inv: "0 \<le> m' - 1" "nat (m' - 1) < length month_lengths"
    "sum_list (take (nat (m' - 1)) month_lengths) + d' - 1 = d" "1 \<le> d'"
    "d' \<le> month_lengths ! nat (m' - 1)" by simp_all
  show "date_of_month_day (month d) (day d) = d"
    using inv(3) by (simp add: date_of_month_day_def m)
  show "1 \<le> month d" using inv(1) m by simp
  show "month d \<le> 12" using inv(1,2) m by (simp add: length_month_lengths)
  show "1 \<le> day d" using inv(4) m by simp
  show "day d \<le> month_lengths ! nat (month d - 1)" using inv(5) m by simp
qed

lemma month_day_of_date:
  assumes "1 \<le> m" "m \<le> 12" "1 \<le> dd" "dd \<le> month_lengths ! nat (m - 1)"
    and "start_date \<le> date_of_month_day m dd" "date_of_month_day m dd \<le> end_date"
  shows "month (date_of_month_day m dd) = m \<and> day (date_of_month_day m dd) = dd"
proof -
  have k: "nat (m - 1) < length month_lengths" using assms(1,2)
    by (simp add: length_month_lengths)
  have "date_of_month_day m dd mod 365 = date_of_month_day m dd"
    using assms(5,6) by (simp add: start_date_def end_date_def)
  moreover have "month_day_from month_lengths 1 (date_of_month_day m dd) = (1 + int (nat (m - 1)), dd)"
    unfolding date_of_month_day_def
    by (rule month_day_from_date [OF month_lengths_pos k assms(3,4)])
  ultimately show ?thesis using assms(1) by (simp add: month_def day_def month_day_def)
qed

subsection \<open>Reading the holiday sheet\<close>

lemma index_of_range: "index_of xs x i = Some j \<Longrightarrow> i \<le> j \<and> j < i + int (length xs)"
  by (induction xs arbitrary: i) (force split: if_splits)+

lemma parse_day_pos: "parse_day s = Some d \<Longrightarrow> 1 \<le> d"
  by (induction s rule: parse_day.induct) (auto split: option.splits if_splits)

lemma strptime_d_b_valid:
  assumes "strptime_d_b s = Some (dd, m)"
  shows "1 \<le> m" "m \<le> 12" "1 \<le> dd" "dd \<le> month_lengths ! nat (m - 1)"
proof -
  from assms obtain rest where pd: "parse_day (takeWhile (\<lambda>c. c \<noteq> CHR ''-'') s) = Some dd"
    and pm: "parse_month rest = Some m" and le: "dd \<le> month_lengths ! nat (m - 1)"
    by (auto simp: strptime_d_b_def split: option.splits list.splits if_splits)
  from index_of_range [OF pm [unfolded parse_month_def]]
  show "1 \<le> m" "m \<le> 12" by (simp_all add: month_names_def)
  show "1 \<le> dd" using pd by (rule parse_day_pos)
  show "dd \<le> month_lengths ! nat (m - 1)" by (rule le)
qed

lemma to_datetime_iff:
  assumes "start_date \<le> d" "d \<le> end_date"
  shows "to_datetime s = Some d \<longleftrightarrow> strptime_d_b s = Some (day d, month d)"
proof
  assume "to_datetime s = Some d"
  then obtain dd m where p: "strptime_d_b s = Some (dd, m)" and d: "d = date_of_month_day m dd"
    by (auto simp: to_datetime_def split: option.splits)
  note v = strptime_d_b_valid [OF p]
  from month_day_of_date [OF v] assms d have "month d = m" "day d = dd" by simp_all
  with p show "strptime_d_b s = Some (day d, month d)" by simp
next
  assume "strptime_d_b s = Some (day d, month d)"
  then show "to_datetime s = Some d"
    using date_of_month_day_inverse(1) [OF assms] by (simp add: to_datetime_def)
qed

lemma holiday_dates_iff:
  "d \<in> fst ` set (get_holidays_for_city hs city) \<longleftrightarrow>
     (\<exists>row \<in> set hs. city_cell row city = ''Holiday'' \<and> to_datetime (Date row) = Some d)"
proof
  assume "d \<in> fst ` set (get_holidays_for_city hs city)"
  then obtain row where "row \<in> set hs" "city_cell row city = ''Holiday''"
    "to_datetime (Date row) \<noteq> None" "d = the (to_datetime (Date row))"
    by (auto simp: get_holidays_for_city_def map_filter_def split: option.splits)
  then show "\<exists>row \<in> set hs. city_cell row city = ''Holiday'' \<and> to_datetime (Date row) = Some d"
    by auto
next
  assume "\<exists>row \<in> set hs. city_cell row city = ''Holiday'' \<and> to_datetime (Date row) = Some d"
  then obtain row where r: "row \<in> set hs" "city_cell row city = ''Holiday''"
    "to_datetime (Date row) = Some d" by blast
  then have "(d, Holiday_Description row) \<in> set (get_holidays_for_city hs city)"
    by (force simp: get_holidays_for_city_def map_filter_def image_iff)
  then show "d \<in> fst ` set (get_holidays_for_city hs city)" by force
qed

lemma weekday_range: "0 \<le> weekday d \<and> weekday d \<le> 6"
  by (simp add: weekday_def)

text \<open>
  C4.  Every date of the year has an entry in the calendar, and its type is Holiday when a row
  of the sheet marked for the city carries the month and day of the date, otherwise Weekend
  when the weekday is Saturday or Sunday, otherwise Workday.  The calendar is a function of
  the sheet and the city, so the classification is deterministic.
\<close>

theorem calendar_classification:
  assumes "start_date \<le> d" and "d \<le> end_date"
  shows "\<exists>info. build_calendar (get_holidays_for_city hs city) d = Some info \<and>
           dtype info =
             (if \<exists>row \<in> set hs. city_cell row city = ''Holiday'' \<and>
                   strptime_d_b (Date row) = Some (day d, month d)
              then Holiday
              else if weekday d = 5 \<or> weekday d = 6 then Weekend
              else Workday)"
proof -
  have h: "d \<in> fst ` set (get_holidays_for_city hs city) \<longleftrightarrow>
        (\<exists>row \<in> set hs. city_cell row city = ''Holiday'' \<and>
           strptime_d_b (Date row) = Some (day d, month d))"
    unfolding holiday_dates_iff using to_datetime_iff [OF assms] by simp
  have w: "is_weekend d \<longleftrightarrow> weekday d = 5 \<or> weekday d = 6"
    using weekday_range [of d] unfolding is_weekend_def by auto
  show ?thesis
    using assms by (simp add: build_calendar_lookup classify_def h w)
qed

lemma sample_strptime: "strptime_d_b ''15-Aug'' = Some (15, 8)"
  by code_simp

lemma sample_month_day: "day 226 = 15" "month 226 = 8" "day 227 = 16" "month 227 = 8"
  "day 225 = 14" "month 225 = 8"
  by (simp_all add: day_def month_def month_day_def month_lengths_def)

theorem calendar_classification_witness:
  "start_date \<le> 226 \<and> 226 \<le> end_date \<and>
   (\<exists>info. build_calendar (get_holidays_for_city sample_holidays ''Mumbai'') 226 = Some info \<and>
           dtype info = Holiday) \<and>
   (\<exists>info. build_calendar (get_holidays_for_city sample_holidays ''Mumbai'') 227 = Some info \<and>
           dtype info = Weekend) \<and>
   (\<exists>info. build_calendar (get_holidays_for_city sample_holidays ''Mumbai'') 225 = Some info \<and>
           dtype info = Workday)"
proof -
  have r: "start_date \<le> 226" "226 \<le> end_date" "start_date \<le> 227" "227 \<le> end_date"
    "start_date \<le> 225" "225 \<le> end_date"
    by (simp_all add: start_date_def end_date_def)
  show ?thesis
    using calendar_classification [OF r(1,2), of sample_holidays "''Mumbai''"]
      calendar_classification [OF r(3,4), of sample_holidays "''Mumbai''"]
      calendar_classification [OF r(5,6), of sample_holidays "''Mumbai''"] r(1,2)
    by (simp add: sample_holidays_def sample_strptime sample_month_day weekday_def)
qed

subsection \<open>No budget\<close>

lemma find_optimal_no_budget:
  assumes "b \<le> 0"
  shows "find_optimal_leave_periods hs city b = Some []"
proof -
  from produce_suggestions_total obtain ps where ps: "produce_suggestions hs city b = Some ps"
    by blast
  from produce_suggestions_Some [OF ps] obtain clusters where
    "optimize_loop (build_calendar (get_holidays_for_city hs city))
       (sort_reverse length clusters) b [] = Some ps" by blast
  then have "ps = []" using assms by (simp add: optimize_loop_stop)
  with ps show ?thesis
    by (simp add: find_optimal_leave_periods_def sort_reverse_def)
qed

subsection \<open>Letter case and substrings\<close>









subsection \<open>The conversion of a cell to an integer\<close>

declare str_of_nat.simps [simp del]

lemma digit_char_cases:
  assumes "k < 10"
  shows "digit (digit_char k) = Some (int k)" "digit_char k \<noteq> CHR ''_''"
    "digit_char k \<noteq> CHR ''-''" "digit_char k \<noteq> CHR ''+''" "\<not> is_space (digit_char k)"
proof -
  from assms have "k = 0 \<or> k = 1 \<or> k = 2 \<or> k = 3 \<or> k = 4 \<or> k = 5 \<or> k = 6 \<or> k = 7 \<or>
    k = 8 \<or> k = 9" by arith
  then have "digit (digit_char k) = Some (int k) \<and> digit_char k \<noteq> CHR ''_'' \<and>
    digit_char k \<noteq> CHR ''-'' \<and> digit_char k \<noteq> CHR ''+'' \<and> \<not> is_space (digit_char k)"
    by (elim disjE) (simp_all add: digit_def digit_char_def is_space_def)
  then show "digit (digit_char k) = Some (int k)" "digit_char k \<noteq> CHR ''_''"
    "digit_char k \<noteq> CHR ''-''" "digit_char k \<noteq> CHR ''+''" "\<not> is_space (digit_char k)"
    by blast+
qed

lemma decimal_props:
  assumes "decimal c"
  shows "digit c \<noteq> None" "c \<noteq> CHR ''_''" "c \<noteq> CHR ''-''" "c \<noteq> CHR ''+''" "\<not> is_space c"
    "is_digit c"
  using assms digit_char_cases unfolding decimal_def is_digit_def by auto

lemma str_of_nat_decimal: "list_all decimal (str_of_nat n)"
proof (induction n rule: str_of_nat.induct)
  case (1 n)
  show ?case
  proof (cases "n < 10")
    case True
    then have "decimal (digit_char n)" unfolding decimal_def by blast
    with True show ?thesis by (subst str_of_nat.simps) simp
  next
    case False
    have "n mod 10 < 10" by simp
    then have "decimal (digit_char (n mod 10))" unfolding decimal_def by blast
    with False 1 show ?thesis by (subst str_of_nat.simps) simp
  qed
qed

lemma str_of_nat_not_Nil: "str_of_nat n \<noteq> []"
  by (subst str_of_nat.simps) simp

lemma parse_digits_decimal:
  "list_all decimal ds \<Longrightarrow> parse_digits acc ds = Some (foldl digit_step acc ds)"
proof (induction acc ds rule: parse_digits.induct)
  case (1 acc)
  then show ?case by simp
next
  case (2 acc c)
  then have "decimal c" by simp
  from decimal_props(1) [OF this] show ?case by (auto simp: digit_step_def)
next
  case (3 acc c d ds)
  then have c: "decimal c" and rest: "list_all decimal (d # ds)" by simp_all
  from decimal_props(1) [OF c] obtain v where v: "digit c = Some v" by auto
  from decimal_props(2) [OF c] have nu: "c \<noteq> CHR ''_''" .
  from 3(2) [OF nu v rest] show ?case using nu v by (simp add: digit_step_def)
qed

lemma foldl_digit_step_str_of_nat: "foldl digit_step 0 (str_of_nat n) = int n"
proof (induction n rule: str_of_nat.induct)
  case (1 n)
  show ?case
  proof (cases "n < 10")
    case True
    with digit_char_cases(1) [OF True] show ?thesis
      by (subst str_of_nat.simps) (simp add: digit_step_def)
  next
    case False
    have lt: "n mod 10 < 10" by simp
    from 1 [OF False] have IH: "foldl digit_step 0 (str_of_nat (n div 10)) = int (n div 10)" .
    have "foldl digit_step 0 (str_of_nat n) =
          digit_step (foldl digit_step 0 (str_of_nat (n div 10))) (digit_char (n mod 10))"
      using False by (subst str_of_nat.simps) simp
    also have "\<dots> = 10 * int (n div 10) + int (n mod 10)"
      using digit_char_cases(1) [OF lt] IH by (simp add: digit_step_def)
    also have "\<dots> = int n" by (simp add: zmod_int zdiv_int)
    finally show ?thesis .
  qed
qed

lemma parse_unsigned_str_of_nat: "parse_unsigned (str_of_nat n) = Some (int n)"
proof -
  obtain c cs where cs: "str_of_nat n = c # cs"
    using str_of_nat_not_Nil [of n] by (cases "str_of_nat n") auto
  from str_of_nat_decimal [of n] cs have c: "decimal c" and rest: "list_all decimal cs"
    by simp_all
  from decimal_props(1) [OF c] obtain v where v: "digit c = Some v" by auto
  have "parse_unsigned (str_of_nat n) = parse_digits v cs"
    using cs v by (simp add: parse_unsigned_def)
  also have "\<dots> = Some (foldl digit_step v cs)" by (rule parse_digits_decimal [OF rest])
  also have "foldl digit_step v cs = foldl digit_step 0 (c # cs)"
    using v by (simp add: digit_step_def)
  also have "\<dots> = int n" using foldl_digit_step_str_of_nat [of n] cs by simp
  finally show ?thesis .
qed

lemma strip_no_space:
  assumes "s \<noteq> []" "\<not> is_space (hd s)" "\<not> is_space (last s)"
  shows "strip s = s"
proof -
  from assms have 1: "dropWhile is_space s = s" by (cases s) auto
  from assms have "rev s \<noteq> []" "\<not> is_space (hd (rev s))" by (simp_all add: hd_rev)
  then have 2: "dropWhile is_space (rev s) = rev s" by (cases "rev s") auto
  show ?thesis unfolding strip_def 1 2 by simp
qed

lemma filter_is_digit_decimal: "list_all decimal ds \<Longrightarrow> filter is_digit ds = ds"
  by (induction ds) (auto simp: decimal_props(6))

lemma int_of_str_str_of_int:
  assumes "length (str_of_nat (nat \<bar>n\<bar>)) \<le> max_str_digits"
  shows "int_of_str (str_of_int n) = Some n"
proof (cases "n < 0")
  case True
  let ?ds = "str_of_nat (nat (- n))"
  have eq: "str_of_int n = CHR ''-'' # ?ds" using True by (simp add: str_of_int_def)
  have dec: "list_all decimal ?ds" by (rule str_of_nat_decimal)
  have ne: "?ds \<noteq> []" by (rule str_of_nat_not_Nil)
  have "decimal (last ?ds)" using dec ne by (simp add: list_all_iff)
  then have "\<not> is_space (last (CHR ''-'' # ?ds))" using ne by (simp add: decimal_props(5))
  moreover have "\<not> is_space (hd (CHR ''-'' # ?ds))" by (simp add: is_space_def)
  ultimately have st: "strip (CHR ''-'' # ?ds) = CHR ''-'' # ?ds"
    by (intro strip_no_space) simp_all
  have "\<not> is_digit CHR ''-''" by (simp add: is_digit_def digit_def)
  then have cnt: "filter is_digit (CHR ''-'' # ?ds) = ?ds"
    using filter_is_digit_decimal [OF dec] by simp
  have len: "\<not> max_str_digits < length ?ds" using assms True by simp
  show ?thesis
    unfolding int_of_str_def eq st using cnt len True
    by (simp add: parse_unsigned_str_of_nat)
next
  case False
  let ?ds = "str_of_nat (nat n)"
  have eq: "str_of_int n = ?ds" using False by (simp add: str_of_int_def)
  have dec: "list_all decimal ?ds" by (rule str_of_nat_decimal)
  obtain c cs where cs: "?ds = c # cs"
    using str_of_nat_not_Nil [of "nat n"] by (cases ?ds) auto
  have c: "decimal c" using dec cs by simp
  have "decimal (last ?ds)" using dec cs by (simp add: list_all_iff)
  then have "\<not> is_space (last ?ds)" by (simp add: decimal_props(5))
  moreover have "\<not> is_space (hd ?ds)" using c cs by (simp add: decimal_props(5))
  ultimately have st: "strip ?ds = ?ds" using cs by (intro strip_no_space) simp_all
  have cnt: "filter is_digit ?ds = ?ds" by (rule filter_is_digit_decimal [OF dec])
  have len: "\<not> max_str_digits < length ?ds" using assms False by simp
  have pu: "parse_unsigned ?ds = Some n" using parse_unsigned_str_of_nat [of "nat n"] False by simp
  have "int_of_str ?ds = parse_unsigned ?ds"
    unfolding int_of_str_def st using cs cnt len decimal_props(3,4) [OF c]
    by simp
  with pu show ?thesis unfolding eq by simp
qed

lemma float_trunc_props:
  "\<bar>of_int (float_trunc q)\<bar> \<le> \<bar>q\<bar>" "\<bar>q - of_int (float_trunc q)\<bar> < 1"
proof -
  have "\<bar>of_int (float_trunc q)\<bar> \<le> \<bar>q\<bar> \<and> \<bar>q - of_int (float_trunc q)\<bar> < 1"
  proof (cases "0 \<le> q")
    case True
    then have "0 \<le> \<lfloor>q\<rfloor>" by simp
    then have "(0 :: rat) \<le> of_int \<lfloor>q\<rfloor>" by simp
    moreover have "of_int \<lfloor>q\<rfloor> \<le> q" "q < of_int \<lfloor>q\<rfloor> + 1" by linarith+
    ultimately show ?thesis using True unfolding float_trunc_def by simp
  next
    case False
    then have "\<lceil>q\<rceil> \<le> 0" by (simp add: ceiling_le_iff)
    then have "(of_int \<lceil>q\<rceil> :: rat) \<le> 0" by simp
    moreover have "q \<le> of_int \<lceil>q\<rceil>" "of_int \<lceil>q\<rceil> < q + 1" by linarith+
    ultimately show ?thesis using False unfolding float_trunc_def by simp
  qed
  then show "\<bar>of_int (float_trunc q)\<bar> \<le> \<bar>q\<bar>" "\<bar>q - of_int (float_trunc q)\<bar> < 1"
    by blast+
qed

lemma py_int_overflow_iff:
  "py_int c = Inl OverflowError \<longleftrightarrow> c = CFloat PosInf \<or> c = CFloat NegInf"
proof (cases c)
  case (CFloat f)
  then show ?thesis by (cases f) simp_all
next
  case (CStr s)
  then show ?thesis by (simp split: option.splits)
qed simp_all

lemma resolve_leaves_Inr: "py_int c = Inr n \<Longrightarrow> resolve_leaves name c = Some (n, [])"
  by (simp add: resolve_leaves_def)

lemma resolve_leaves_caught:
  assumes "py_int c = Inl ValueError \<or> py_int c = Inl TypeError"
  shows "\<exists>line. resolve_leaves name c = Some (10, [line])"
  using assms by (auto simp: resolve_leaves_def)

lemma resolve_leaves_None_iff:
  "resolve_leaves name c = None \<longleftrightarrow> c = CFloat PosInf \<or> c = CFloat NegInf"
proof -
  have "resolve_leaves name c = None \<longleftrightarrow> py_int c = Inl OverflowError"
  proof (cases "py_int c")
    case (Inl e)
    then show ?thesis unfolding resolve_leaves_def by (cases e) simp_all
  next
    case (Inr n)
    then show ?thesis unfolding resolve_leaves_def by simp
  qed
  then show ?thesis by (simp add: py_int_overflow_iff)
qed

subsection \<open>The loop over the employees\<close>



lemma match_city_mem: "match_city city cs = Some m \<Longrightarrow> m \<in> set cs"
  by (induction cs) (auto split: if_splits)

lemma plan_employee_abort:
  "resolve_leaves (emp_name emp) (emp_leaves emp) = None \<Longrightarrow> plan_employee p emp = None"
  by (simp add: plan_employee_def)

lemma plan_employee_known:
  assumes rl: "resolve_leaves (emp_name emp) (emp_leaves emp) = Some (b, w)"
    and kn: "py_str (emp_city emp) \<in> set (cities p)"
  shows "\<exists>ss. find_optimal_leave_periods (holidays_df p) (py_str (emp_city emp)) b = Some ss \<and>
              plan_employee p emp =
                Some \<lparr>Employee_Name = emp_name emp, Employee_ID = emp_id emp,
                      City = py_str (emp_city emp), Status = None,
                      Available_Leaves = Some b, Suggestions = ss\<rparr>"
proof -
  from find_optimal_total obtain ss where
    ss: "find_optimal_leave_periods (holidays_df p) (py_str (emp_city emp)) b = Some ss"
    by blast
  then show ?thesis using rl kn by (simp add: plan_employee_def Let_def)
qed

lemma plan_employee_matched:
  assumes rl: "resolve_leaves (emp_name emp) (emp_leaves emp) = Some (b, w)"
    and nm: "py_str (emp_city emp) \<notin> set (cities p)"
    and m: "match_city (py_str (emp_city emp)) (cities p) = Some m" and ne: "m \<noteq> []"
  shows "\<exists>ss. find_optimal_leave_periods (holidays_df p) m b = Some ss \<and>
              plan_employee p emp =
                Some \<lparr>Employee_Name = emp_name emp, Employee_ID = emp_id emp,
                      City = m, Status = None,
                      Available_Leaves = Some b, Suggestions = ss\<rparr>"
proof -
  from find_optimal_total obtain ss where
    ss: "find_optimal_leave_periods (holidays_df p) m b = Some ss" by blast
  then show ?thesis using rl nm m ne by (simp add: plan_employee_def Let_def)
qed

lemma plan_employee_unmatched:
  assumes rl: "resolve_leaves (emp_name emp) (emp_leaves emp) = Some (b, w)"
    and nm: "py_str (emp_city emp) \<notin> set (cities p)"
    and n: "match_city (py_str (emp_city emp)) (cities p) = None"
  shows "plan_employee p emp =
           Some \<lparr>Employee_Name = emp_name emp, Employee_ID = emp_id emp,
                 City = py_str (emp_city emp),
                 Status = Some (''Error: City '' @ [CHR 0x27] @ py_str (emp_city emp) @ [CHR 0x27]
                                @ '' not found in holiday list''),
                 Available_Leaves = None, Suggestions = []\<rparr>"
  using rl nm n by (simp add: plan_employee_def Let_def)

lemma plan_employee_result:
  assumes rl: "resolve_leaves (emp_name emp) (emp_leaves emp) = Some (b, w)"
  shows "\<exists>r. plan_employee p emp = Some r \<and>
           (Status r = None \<longrightarrow>
              Available_Leaves r = Some b \<and> City r \<in> set (cities p) \<and>
              find_optimal_leave_periods (holidays_df p) (City r) b = Some (Suggestions r)) \<and>
           (Status r \<noteq> None \<longrightarrow> Available_Leaves r = None \<and> Suggestions r = [])"
proof (cases "py_str (emp_city emp) \<in> set (cities p)")
  case True
  from plan_employee_known [OF rl True] obtain ss where
    "find_optimal_leave_periods (holidays_df p) (py_str (emp_city emp)) b = Some ss"
    "plan_employee p emp =
       Some \<lparr>Employee_Name = emp_name emp, Employee_ID = emp_id emp,
             City = py_str (emp_city emp), Status = None,
             Available_Leaves = Some b, Suggestions = ss\<rparr>" by blast
  with True show ?thesis by simp
next
  case False
  show ?thesis
  proof (cases "match_city (py_str (emp_city emp)) (cities p)")
    case None
    from plan_employee_unmatched [OF rl False None] show ?thesis by simp
  next
    case (Some m)
    show ?thesis
    proof (cases "m = []")
      case True
      with rl False Some show ?thesis by (simp add: plan_employee_def Let_def)
    next
      case ne: False
      from plan_employee_matched [OF rl False Some ne] obtain ss where
        "find_optimal_leave_periods (holidays_df p) m b = Some ss"
        "plan_employee p emp =
           Some \<lparr>Employee_Name = emp_name emp, Employee_ID = emp_id emp,
                 City = m, Status = None,
                 Available_Leaves = Some b, Suggestions = ss\<rparr>" by blast
      with match_city_mem [OF Some] show ?thesis by simp
    qed
  qed
qed

lemma generate_loop_step:
  "plan_employee p e = Some r \<Longrightarrow>
     generate_loop p (e # rest) acc = generate_loop p rest (acc @ [r])"
  by simp

lemma generate_loop_results:
  assumes "\<forall>e \<in> set emps. emp_leaves e \<noteq> CFloat PosInf \<and> emp_leaves e \<noteq> CFloat NegInf"
  shows "\<exists>rs. generate_loop p emps acc = Some (acc @ rs) \<and> length rs = length emps \<and>
        (\<forall>i < length rs. plan_employee p (emps ! i) = Some (rs ! i))"
  using assms
proof (induction emps arbitrary: acc)
  case Nil
  then show ?case by simp
next
  case (Cons e emps)
  from Cons.prems have "resolve_leaves (emp_name e) (emp_leaves e) \<noteq> None"
    by (simp add: resolve_leaves_None_iff)
  then obtain b w where "resolve_leaves (emp_name e) (emp_leaves e) = Some (b, w)" by auto
  from plan_employee_result [OF this] obtain r where r: "plan_employee p e = Some r" by blast
  from Cons.prems have "\<forall>e \<in> set emps. emp_leaves e \<noteq> CFloat PosInf \<and> emp_leaves e \<noteq> CFloat NegInf"
    by simp
  from Cons.IH [OF this, of "acc @ [r]"] obtain rs where
    rs: "generate_loop p emps (acc @ [r]) = Some ((acc @ [r]) @ rs)" "length rs = length emps"
    "\<forall>i < length rs. plan_employee p (emps ! i) = Some (rs ! i)" by blast
  have "\<forall>i < length (r # rs). plan_employee p ((e # emps) ! i) = Some ((r # rs) ! i)"
    using r rs(3) by (simp add: nth_Cons split: nat.splits)
  moreover have "generate_loop p (e # emps) acc = Some (acc @ (r # rs))"
    using r rs(1) by simp
  moreover have "length (r # rs) = length (e # emps)" using rs(2) by simp
  ultimately show ?case by blast
qed

lemma generate_loop_abort:
  "e \<in> set emps \<Longrightarrow> plan_employee p e = None \<Longrightarrow> generate_loop p emps acc = None"
proof (induction emps arbitrary: acc)
  case Nil
  then show ?case by simp
next
  case (Cons a emps)
  show ?case
  proof (cases "plan_employee p a")
    case None
    then show ?thesis by simp
  next
    case (Some r)
    with Cons.prems have "e \<in> set emps" by auto
    from Cons.IH [OF this Cons.prems(2)] Some show ?thesis by simp
  qed
qed

lemma generate_leave_plans_results:
  assumes "\<forall>e \<in> set (employees_df p).
             emp_leaves e \<noteq> CFloat PosInf \<and> emp_leaves e \<noteq> CFloat NegInf"
  shows "\<exists>rs. generate_leave_plans p = Some rs \<and> length rs = length (employees_df p) \<and>
        (\<forall>i < length rs. plan_employee p (employees_df p ! i) = Some (rs ! i))"
  using generate_loop_results [OF assms, of p "[]"]
  by (simp add: generate_leave_plans_def)

subsection \<open>The planner on the sample employees\<close>

lemma sample_close:
  "\<not> close_match ''Atlantis'' ''Mumbai''"
  "close_match ''mumbai office'' ''Mumbai''"
  by code_simp+

lemma sample_resolve:
  "resolve_leaves ''Ravi'' (CStr ''N/A'') =
     Some (10, [''Warning: Invalid leave value for Ravi: N/A. Using default of 10.''])"
  "resolve_leaves ''Meena'' (CInt (- 3)) = Some (- 3, [])"
  "resolve_leaves ''Asha'' (CInt 5) = Some (5, [])"
  "resolve_leaves ''Kiran'' (CFloat PosInf) = None"
  "py_int (CStr ''N/A'') = Inl ValueError"
  "py_int (CStr ''12'') = Inr 12"
  "py_int (CFloat (Finite (- 27 / 10))) = Inr (- 2)"
  by code_simp+

section \<open>The leave balance and the city of an employee\<close>

text \<open>
  C6, as the specification states it, fails twice.  The number of leaves is not made
  non-negative: the employee Meena has \<open>-3\<close> in the sheet, and \<open>-3\<close> is the budget of her
  plan.  And a value on which \<open>int\<close> fails can end the run: for the float infinity \<open>int\<close>
  raises \<open>OverflowError\<close>, which the \<open>except\<close> clause does not name, so the employee Kiran
  gets no plan and the run over the sheet returns nothing.
\<close>

theorem leave_balance_counterexample:
  "py_int (CInt (- 3)) = Inr (- 3) \<and>
   plan_employee sample_planner
     \<lparr>emp_name = ''Meena'', emp_id = ''E3'', emp_city = CStr ''Mumbai'', emp_leaves = CInt (- 3)\<rparr>
   = Some \<lparr>Employee_Name = ''Meena'', Employee_ID = ''E3'', City = ''Mumbai'', Status = None,
           Available_Leaves = Some (- 3), Suggestions = []\<rparr> \<and>
   py_int (CFloat PosInf) = Inl OverflowError \<and>
   plan_employee overflow_planner
     \<lparr>emp_name = ''Kiran'', emp_id = ''E4'', emp_city = CStr ''Mumbai'', emp_leaves = CFloat PosInf\<rparr>
   = None \<and>
   generate_leave_plans overflow_planner = None"
proof -
  let ?kiran = "\<lparr>emp_name = ''Kiran'', emp_id = ''E4'', emp_city = CStr ''Mumbai'',
                  emp_leaves = CFloat PosInf\<rparr>"
  have 1: "py_int (CInt (- 3)) = Inr (- 3)" by simp
  have 2: "plan_employee sample_planner
     \<lparr>emp_name = ''Meena'', emp_id = ''E3'', emp_city = CStr ''Mumbai'', emp_leaves = CInt (- 3)\<rparr>
   = Some \<lparr>Employee_Name = ''Meena'', Employee_ID = ''E3'', City = ''Mumbai'', Status = None,
           Available_Leaves = Some (- 3), Suggestions = []\<rparr>"
    by (simp add: plan_employee_def Let_def sample_planner_def sample_resolve(2)
          find_optimal_no_budget)
  have 3: "py_int (CFloat PosInf) = Inl OverflowError" by simp
  have 4: "plan_employee overflow_planner ?kiran = None"
    by (simp add: plan_employee_def sample_resolve(4))
  have "?kiran \<in> set (employees_df overflow_planner)" by (simp add: overflow_planner_def)
  from generate_loop_abort [OF this 4]
  have 5: "generate_leave_plans overflow_planner = None" by (simp add: generate_leave_plans_def)
  show ?thesis by (rule conjI [OF 1 conjI [OF 2 conjI [OF 3 conjI [OF 4 5]]]])
qed

text \<open>
  C6, amended.  For an employee whose leave field is not an infinite float, the conversion of
  the field returns a budget \<open>b\<close>, an integer of either sign: the value that \<open>int\<close> gives for
  the field, with nothing printed, and the default 10, with one printed line, when \<open>int\<close>
  raises \<open>ValueError\<close> or \<open>TypeError\<close>.  The employee gets a result; when it is a plan, it
  carries \<open>b\<close> as the available leaves and the suggestions that the optimizer returns for the
  city of the result and the budget \<open>b\<close>, and these are none when \<open>b\<close> is 0 or less.  When no
  leave field of the sheet is an infinite float, the run returns one result for each employee.
  What \<open>int\<close> gives: for the decimal text of an integer \<open>n\<close> of at most 4300 digits it is
  \<open>n\<close>, and for a finite float it is the integer next to it in the direction of 0.
\<close>

theorem leave_balance_resolution:
  assumes "emp_leaves emp \<noteq> CFloat PosInf" and "emp_leaves emp \<noteq> CFloat NegInf"
  shows "(\<exists>b w r.
      resolve_leaves (emp_name emp) (emp_leaves emp) = Some (b, w) \<and>
      (\<forall>n. py_int (emp_leaves emp) = Inr n \<longrightarrow> b = n \<and> w = []) \<and>
      (py_int (emp_leaves emp) = Inl ValueError \<or> py_int (emp_leaves emp) = Inl TypeError \<longrightarrow>
         b = 10 \<and>
         w = [''Warning: Invalid leave value for '' @ emp_name emp @ '': ''
                @ py_str (emp_leaves emp) @ ''. Using default of 10.'']) \<and>
      plan_employee p emp = Some r \<and>
      (Status r = None \<longrightarrow>
         Available_Leaves r = Some b \<and>
         find_optimal_leave_periods (holidays_df p) (City r) b = Some (Suggestions r)) \<and>
      (b \<le> 0 \<longrightarrow> Suggestions r = [])) \<and>
    ((\<forall>e \<in> set (employees_df p).
         emp_leaves e \<noteq> CFloat PosInf \<and> emp_leaves e \<noteq> CFloat NegInf) \<longrightarrow>
     (\<exists>rs. generate_leave_plans p = Some rs \<and> length rs = length (employees_df p))) \<and>
    (\<forall>n. length (str_of_nat (nat \<bar>n\<bar>)) \<le> 4300 \<longrightarrow> py_int (CStr (str_of_int n)) = Inr n) \<and>
    (\<forall>q. \<exists>k. py_int (CFloat (Finite q)) = Inr k \<and>
            \<bar>of_int k\<bar> \<le> \<bar>q\<bar> \<and> \<bar>q - of_int k\<bar> < 1)"
proof (intro conjI)
  from assms have "resolve_leaves (emp_name emp) (emp_leaves emp) \<noteq> None"
    by (simp add: resolve_leaves_None_iff)
  then obtain b w where rl: "resolve_leaves (emp_name emp) (emp_leaves emp) = Some (b, w)"
    by auto
  obtain r where r: "plan_employee p emp = Some r"
    and ok: "Status r = None \<longrightarrow>
              Available_Leaves r = Some b \<and> City r \<in> set (cities p) \<and>
              find_optimal_leave_periods (holidays_df p) (City r) b = Some (Suggestions r)"
    and err: "Status r \<noteq> None \<longrightarrow> Available_Leaves r = None \<and> Suggestions r = []"
  proof -
    from plan_employee_result [OF rl, of p] show ?thesis by (elim exE conjE) (rule that)
  qed
  have a: "\<forall>n. py_int (emp_leaves emp) = Inr n \<longrightarrow> b = n \<and> w = []"
    using rl by (auto simp: resolve_leaves_def)
  have c: "py_int (emp_leaves emp) = Inl ValueError \<or> py_int (emp_leaves emp) = Inl TypeError \<longrightarrow>
         b = 10 \<and>
         w = [''Warning: Invalid leave value for '' @ emp_name emp @ '': ''
                @ py_str (emp_leaves emp) @ ''. Using default of 10.'']"
    using rl by (auto simp: resolve_leaves_def)
  have d: "Status r = None \<longrightarrow>
         Available_Leaves r = Some b \<and>
         find_optimal_leave_periods (holidays_df p) (City r) b = Some (Suggestions r)"
    using ok by blast
  have e: "b \<le> 0 \<longrightarrow> Suggestions r = []"
  proof
    assume b: "b \<le> 0"
    show "Suggestions r = []"
    proof (cases "Status r = None")
      case True
      with ok have "find_optimal_leave_periods (holidays_df p) (City r) b = Some (Suggestions r)"
        by blast
      with find_optimal_no_budget [OF b, of "holidays_df p" "City r"] show ?thesis by simp
    next
      case False
      with err show ?thesis by blast
    qed
  qed
  note full = conjI [OF rl conjI [OF a conjI [OF c conjI [OF r conjI [OF d e]]]]]
  show "\<exists>b w r.
      resolve_leaves (emp_name emp) (emp_leaves emp) = Some (b, w) \<and>
      (\<forall>n. py_int (emp_leaves emp) = Inr n \<longrightarrow> b = n \<and> w = []) \<and>
      (py_int (emp_leaves emp) = Inl ValueError \<or> py_int (emp_leaves emp) = Inl TypeError \<longrightarrow>
         b = 10 \<and>
         w = [''Warning: Invalid leave value for '' @ emp_name emp @ '': ''
                @ py_str (emp_leaves emp) @ ''. Using default of 10.'']) \<and>
      plan_employee p emp = Some r \<and>
      (Status r = None \<longrightarrow>
         Available_Leaves r = Some b \<and>
         find_optimal_leave_periods (holidays_df p) (City r) b = Some (Suggestions r)) \<and>
      (b \<le> 0 \<longrightarrow> Suggestions r = [])"
    by (rule exI [where x = b], rule exI [where x = w], rule exI [where x = r]) (rule full)
next
  show "(\<forall>e \<in> set (employees_df p).
         emp_leaves e \<noteq> CFloat PosInf \<and> emp_leaves e \<noteq> CFloat NegInf) \<longrightarrow>
     (\<exists>rs. generate_leave_plans p = Some rs \<and> length rs = length (employees_df p))"
    using generate_leave_plans_results [of p] by blast
next
  show "\<forall>n. length (str_of_nat (nat \<bar>n\<bar>)) \<le> 4300 \<longrightarrow> py_int (CStr (str_of_int n)) = Inr n"
    by (simp add: int_of_str_str_of_int max_str_digits_def)
next
  show "\<forall>q. \<exists>k. py_int (CFloat (Finite q)) = Inr k \<and>
            \<bar>of_int k\<bar> \<le> \<bar>q\<bar> \<and> \<bar>q - of_int k\<bar> < 1"
    using float_trunc_props by simp
qed

theorem leave_balance_resolution_witness:
  "emp_leaves \<lparr>emp_name = ''Ravi'', emp_id = ''E2'', emp_city = CStr ''mumbai office'',
               emp_leaves = CStr ''N/A''\<rparr> \<noteq> CFloat PosInf \<and>
   emp_leaves \<lparr>emp_name = ''Ravi'', emp_id = ''E2'', emp_city = CStr ''mumbai office'',
               emp_leaves = CStr ''N/A''\<rparr> \<noteq> CFloat NegInf \<and>
   py_int (CStr ''N/A'') = Inl ValueError \<and>
   resolve_leaves ''Ravi'' (CStr ''N/A'') =
     Some (10, [''Warning: Invalid leave value for Ravi: N/A. Using default of 10.'']) \<and>
   (\<exists>r. plan_employee sample_planner
          \<lparr>emp_name = ''Ravi'', emp_id = ''E2'', emp_city = CStr ''mumbai office'',
            emp_leaves = CStr ''N/A''\<rparr> = Some r \<and>
        Status r = None \<and> City r = ''Mumbai'' \<and> Available_Leaves r = Some 10 \<and>
        find_optimal_leave_periods sample_holidays ''Mumbai'' 10 = Some (Suggestions r) \<and>
        Suggestions r =
     [\<lparr>sg_start_date = 8, sg_end_date = 11, leaves_used = 2,
        total_days_off = 4, sg_value = 2, leave_dates = [8, 9],
        holiday_info = []\<rparr>,
      \<lparr>sg_start_date = 224, sg_end_date = 230, leaves_used = 4,
        total_days_off = 7, sg_value = 7 / 4,
        leave_dates = [224, 225, 229, 230],
        holiday_info = [''15-Aug: Independence Day'']\<rparr>,
      \<lparr>sg_start_date = 1, sg_end_date = 6, leaves_used = 4, total_days_off = 6,
        sg_value = 3 / 2, leave_dates = [1, 2, 5, 6], holiday_info = []\<rparr>]) \<and>
   (\<exists>rs. generate_leave_plans sample_planner = Some rs \<and> length rs = 3) \<and>
   py_int (CStr (str_of_int 12)) = Inr 12 \<and>
   py_int (CFloat (Finite (- 27 / 10))) = Inr (- 2)"
proof -
  let ?ravi = "\<lparr>emp_name = ''Ravi'', emp_id = ''E2'', emp_city = CStr ''mumbai office'',
                 emp_leaves = CStr ''N/A''\<rparr>"
  have h1: "emp_leaves ?ravi \<noteq> CFloat PosInf" and h2: "emp_leaves ?ravi \<noteq> CFloat NegInf"
    by simp_all
  note t = leave_balance_resolution [OF h1 h2, of sample_planner]
  obtain b w r where
    rl: "resolve_leaves (emp_name ?ravi) (emp_leaves ?ravi) = Some (b, w)"
    and caught: "py_int (emp_leaves ?ravi) = Inl ValueError \<or>
                 py_int (emp_leaves ?ravi) = Inl TypeError \<longrightarrow>
         b = 10 \<and>
         w = [''Warning: Invalid leave value for '' @ emp_name ?ravi @ '': ''
                @ py_str (emp_leaves ?ravi) @ ''. Using default of 10.'']"
    and r: "plan_employee sample_planner ?ravi = Some r"
    and plan: "Status r = None \<longrightarrow>
         Available_Leaves r = Some b \<and>
         find_optimal_leave_periods (holidays_df sample_planner) (City r) b = Some (Suggestions r)"
  proof -
    from t [THEN conjunct1] show ?thesis by (elim exE conjE) (rule that)
  qed
  have v: "py_int (CStr ''N/A'') = Inl ValueError" by (rule sample_resolve(5))
  with caught have b: "b = 10"
    and w: "w = [''Warning: Invalid leave value for Ravi: N/A. Using default of 10.'']"
    by simp_all
  from rl b w have rl': "resolve_leaves ''Ravi'' (CStr ''N/A'') =
     Some (10, [''Warning: Invalid leave value for Ravi: N/A. Using default of 10.''])"
    by simp
  have nm: "py_str (emp_city ?ravi) \<notin> set (cities sample_planner)"
    by (simp add: sample_planner_def)
  have m: "match_city (py_str (emp_city ?ravi)) (cities sample_planner) = Some ''Mumbai''"
    by (simp add: sample_planner_def sample_close)
  from plan_employee_matched [OF rl nm m] r have st: "Status r = None" and ci: "City r = ''Mumbai''"
    by auto
  from plan st b ci have av: "Available_Leaves r = Some 10"
    and opt: "find_optimal_leave_periods sample_holidays ''Mumbai'' 10 = Some (Suggestions r)"
    by (simp_all add: sample_planner_def)
  from opt have sg: "Suggestions r =
     [\<lparr>sg_start_date = 8, sg_end_date = 11, leaves_used = 2,
        total_days_off = 4, sg_value = 2, leave_dates = [8, 9],
        holiday_info = []\<rparr>,
      \<lparr>sg_start_date = 224, sg_end_date = 230, leaves_used = 4,
        total_days_off = 7, sg_value = 7 / 4,
        leave_dates = [224, 225, 229, 230],
        holiday_info = [''15-Aug: Independence Day'']\<rparr>,
      \<lparr>sg_start_date = 1, sg_end_date = 6, leaves_used = 4, total_days_off = 6,
        sg_value = 3 / 2, leave_dates = [1, 2, 5, 6], holiday_info = []\<rparr>]"
    by (simp add: sample_find_optimal)
  from r st ci av opt sg have ex: "\<exists>r. plan_employee sample_planner ?ravi = Some r \<and>
        Status r = None \<and> City r = ''Mumbai'' \<and> Available_Leaves r = Some 10 \<and>
        find_optimal_leave_periods sample_holidays ''Mumbai'' 10 = Some (Suggestions r) \<and>
        Suggestions r =
     [\<lparr>sg_start_date = 8, sg_end_date = 11, leaves_used = 2,
        total_days_off = 4, sg_value = 2, leave_dates = [8, 9],
        holiday_info = []\<rparr>,
      \<lparr>sg_start_date = 224, sg_end_date = 230, leaves_used = 4,
        total_days_off = 7, sg_value = 7 / 4,
        leave_dates = [224, 225, 229, 230],
        holiday_info = [''15-Aug: Independence Day'']\<rparr>,
      \<lparr>sg_start_date = 1, sg_end_date = 6, leaves_used = 4, total_days_off = 6,
        sg_value = 3 / 2, leave_dates = [1, 2, 5, 6], holiday_info = []\<rparr>]"
    by blast
  have fin: "\<forall>e \<in> set (employees_df sample_planner).
         emp_leaves e \<noteq> CFloat PosInf \<and> emp_leaves e \<noteq> CFloat NegInf"
    by (simp add: sample_planner_def sample_employees_def)
  from t [THEN conjunct2, THEN conjunct1, THEN mp, OF fin] obtain rs where
    rs: "generate_leave_plans sample_planner = Some rs"
    "length rs = length (employees_df sample_planner)" by blast
  from rs(2) have "length rs = 3" by (simp add: sample_planner_def sample_employees_def)
  with rs(1) have len: "\<exists>rs. generate_leave_plans sample_planner = Some rs \<and> length rs = 3"
    by blast
  have "length (str_of_nat (nat \<bar>12 :: int\<bar>)) \<le> 4300" by code_simp
  from t [THEN conjunct2, THEN conjunct2, THEN conjunct1, THEN spec, THEN mp, OF this]
  have rt: "py_int (CStr (str_of_int 12)) = Inr 12" .
  have tr: "py_int (CFloat (Finite (- 27 / 10))) = Inr (- 2)" by (rule sample_resolve(7))
  show ?thesis
    by (rule conjI [OF h1 conjI [OF h2 conjI [OF v conjI [OF rl' conjI [OF ex
          conjI [OF len conjI [OF rt tr]]]]]]])
qed



end
